theory Spec2Isabelle
  imports Complex_Main "HOL-Library.Signed_Division"
begin

unbundle bit_operations_syntax

section \<open>Number theory functions of Quantum++ (number\_theory.h)\<close>

subsection \<open>Types and exceptions\<close>

text \<open>
  Modelled from the spec: the declarations of \<open>bigint\<close> and \<open>idx\<close> (types.h) are not
  part of the source at hand. The spec's data model takes \<open>bigint\<close> as a signed integer of
  arbitrary range whose division and modulo truncate towards zero, so \<open>bigint\<close> is
  \<^typ>\<open>int\<close> with \<open>sdiv\<close> and \<open>smod\<close> for \<open>/\<close> and \<open>%\<close>; \<open>idx\<close> is an unsigned size, \<^typ>\<open>nat\<close>.
\<close>

type_synonym bigint = int
type_synonym idx = nat

text \<open>
  \<open>Exception(where, type)\<close>: the operation that raised it and the kind of error.
  \<open>CUSTOM_EXCEPTION\<close> carries the message of the two-string constructor.
\<close>

datatype exception_type = ZERO_SIZE | OUT_OF_RANGE | PERM_INVALID | CUSTOM_EXCEPTION string

datatype exception = Exception string exception_type

subsection \<open>gcd and lcm\<close>

text \<open>The loop of \<open>gcd\<close>: \<open>while (n) { result = n; n = m % result; m = result; }\<close>.\<close>

function gcd_loop :: "bigint \<Rightarrow> bigint \<Rightarrow> bigint \<Rightarrow> bigint" where
  "gcd_loop m n result = (if n \<noteq> 0 then gcd_loop n (m smod n) n else result)"
  by pat_completeness auto
termination
proof (relation "measure (\<lambda>(m, n, result). nat \<bar>n\<bar>)")
  show "wf (measure (\<lambda>(m, n, result). nat \<bar>n\<bar>))" by simp
next
  fix m n result :: int
  assume "n \<noteq> 0"
  then show "((n, m smod n, n), (m, n, result)) \<in> measure (\<lambda>(m, n, result). nat \<bar>n\<bar>)"
    using smod_int_range [of n m] by auto
qed

declare gcd_loop.simps [simp del]

definition gcd_qpp :: "bigint \<Rightarrow> bigint \<Rightarrow> exception + bigint" where
  "gcd_qpp m n =
     (if m = 0 \<and> n = 0 then Inl (Exception ''qpp::gcd()'' OUT_OF_RANGE)
      else if m = 0 \<or> n = 0 then Inr (max \<bar>m\<bar> \<bar>n\<bar>)
      else let result = gcd_loop m n 1 in Inr (if result > 0 then result else - result))"

definition lcm_qpp :: "bigint \<Rightarrow> bigint \<Rightarrow> exception + bigint" where
  "lcm_qpp m n =
     (if m = 0 \<and> n = 0 then Inl (Exception ''qpp::lcm()'' OUT_OF_RANGE)
      else case gcd_qpp m n of
        Inl e \<Rightarrow> Inl e
      | Inr g \<Rightarrow> let result = (m * n) sdiv g in Inr (if result > 0 then result else - result))"

subsection \<open>Continued fractions\<close>

text \<open>
  \<open>contfrac2x\<close> returns a \<open>double\<close>; the value is modelled by the real number the
  floating-point operations approximate (a division by zero, \<open>inf\<close> in C++, is \<open>0\<close> here).
  Only the exception checks, which are exact, are used below.
  The loop is \<open>for (idx i = n - 2; i != 0; --i) tmp = 1. / (tmp + cf[i]);\<close>.
\<close>

fun contfrac_loop :: "int list \<Rightarrow> idx \<Rightarrow> real \<Rightarrow> real" where
  "contfrac_loop cf 0 tmp = tmp"
| "contfrac_loop cf (Suc i) tmp = contfrac_loop cf i (1 / (tmp + real_of_int (cf ! Suc i)))"

definition contfrac2x_n :: "int list \<Rightarrow> idx \<Rightarrow> exception + real" where
  "contfrac2x_n cf n =
     (if length cf = 0 then Inl (Exception ''qpp::contfrac2x()'' ZERO_SIZE)
      else if n = 0 then Inl (Exception ''qpp::contfrac2x()'' OUT_OF_RANGE)
      else let n = (if n > length cf then length cf else n) in
        if n = 1 then Inr (real_of_int (cf ! 0))
        else let tmp = 1 / real_of_int (cf ! (n - 1)) in
          Inr (real_of_int (cf ! 0) + contfrac_loop cf (n - 2) tmp))"

definition contfrac2x :: "int list \<Rightarrow> exception + real" where
  "contfrac2x cf =
     (if length cf = 0 then Inl (Exception ''qpp::contfrac2x()'' ZERO_SIZE)
      else if length cf = 1 then Inr (real_of_int (cf ! 0))
      else let tmp = 1 / real_of_int (cf ! (length cf - 1)) in
        Inr (real_of_int (cf ! 0) + contfrac_loop cf (length cf - 2) tmp))"

subsection \<open>Permutations\<close>

text \<open>
  Modelled from the spec: \<open>internal::_check_perm\<close> is not part of the source at hand. The
  spec's data model: a permutation is a sequence of indices of length \<open>N\<close> that is a
  bijection on \<open>{0, ..., N-1}\<close>: each value in range, each value appearing exactly once.
\<close>

definition check_perm :: "idx list \<Rightarrow> bool" where
  "check_perm perm = (list_all (\<lambda>v. v < length perm) perm \<and> distinct perm)"

text \<open>
  \<open>std::vector<idx> result(perm.size()); for (i...) result[perm[i]] = i;\<close>
  The loop runs over the indices \<open>0, ..., perm.size() - 1\<close> in order. After the check
  every \<open>perm[i]\<close> is in range, so no write is out of bounds.
\<close>

definition invperm_loop :: "idx list \<Rightarrow> idx list \<Rightarrow> idx list \<Rightarrow> idx list" where
  "invperm_loop perm indices result = fold (\<lambda>i result. result[perm ! i := i]) indices result"

definition invperm :: "idx list \<Rightarrow> exception + idx list" where
  "invperm perm =
     (if \<not> check_perm perm then Inl (Exception ''qpp::invperm()'' PERM_INVALID)
      else Inr (invperm_loop perm [0..<length perm] (replicate (length perm) 0)))"

text \<open>\<open>for (i...) result[i] = perm[sigma[i]];\<close>, after the three checks.\<close>

definition compperm :: "idx list \<Rightarrow> idx list \<Rightarrow> exception + idx list" where
  "compperm perm sigma =
     (if \<not> check_perm perm then Inl (Exception ''qpp::compperm()'' PERM_INVALID)
      else if \<not> check_perm sigma then Inl (Exception ''qpp::compperm()'' PERM_INVALID)
      else if length perm \<noteq> length sigma then Inl (Exception ''qpp::compperm()'' PERM_INVALID)
      else Inr (map (\<lambda>i. perm ! (sigma ! i)) [0..<length perm]))"

subsection \<open>Prime factor decomposition\<close>

text \<open>
  The inner loop \<open>while (n % d == 0) { result.push_back(d); n /= d; }\<close> and the outer
  loop \<open>while (n > 1) { ...; ++d; if (d * d > n) { if (n > 1) result.push_back(n); break; } }\<close>.
  Neither has a bound of its own (the inner one would spin on \<open>n = 0\<close>), so not returning
  is the value \<open>None\<close>.
\<close>

partial_function (option) factors_inner ::
  "bigint \<Rightarrow> bigint \<Rightarrow> bigint list \<Rightarrow> (bigint \<times> bigint list) option" where
  "factors_inner n d result =
     (if n smod d = 0 then factors_inner (n sdiv d) d (result @ [d]) else Some (n, result))"

declare factors_inner.simps [code]

partial_function (option) factors_outer ::
  "bigint \<Rightarrow> bigint \<Rightarrow> bigint list \<Rightarrow> bigint list option" where
  "factors_outer n d result =
     (if n > 1 then
        Option.bind (factors_inner n d result) (\<lambda>(n', result').
          let d' = d + 1 in
          if d' * d' > n' then Some (if n' > 1 then result' @ [n'] else result')
          else factors_outer n' d' result')
      else Some result)"

declare factors_outer.simps [code]

definition factors :: "bigint \<Rightarrow> (exception + bigint list) option" where
  "factors n =
     (let n = (if n < 0 then - n else n) in
      if n = 0 \<or> n = 1 then Some (Inl (Exception ''qpp::factors()'' OUT_OF_RANGE))
      else map_option Inr (factors_outer n 2 []))"

subsection \<open>Modular multiplication and exponentiation\<close>

text \<open>
  \<open>internal::mulmod\<close>. The loop works on \<open>b > 0\<close>, where \<open>b & 1\<close> is the last bit and
  \<open>b >>= 1\<close> halves. The modulus is not zero at any call (\<open>%\<close> by zero is undefined in C++).
\<close>

function mulmod_loop :: "bigint \<Rightarrow> bigint \<Rightarrow> bigint \<Rightarrow> bigint \<Rightarrow> bigint" where
  "mulmod_loop a b m r =
     (if b > 0 then
        let r' = (if b AND 1 \<noteq> 0 then (if m - r > a then r + a else r + a - m) else r);
            b' = drop_bit 1 b;
            a' = (if b' \<noteq> 0 then (if m - a > a then a + a else a + a - m) else a)
        in mulmod_loop a' b' m r'
      else r)"
  by pat_completeness auto
termination
  by (relation "measure (\<lambda>(a, b, m, r). nat b)") (auto simp: drop_bit_eq_div)

declare mulmod_loop.simps [simp del]

definition mulmod :: "bigint \<Rightarrow> bigint \<Rightarrow> bigint \<Rightarrow> bigint" where
  "mulmod a b m = mulmod_loop (a smod m) (b smod m) m 0"

text \<open>\<open>internal::mulmod1\<close>.\<close>

function mulmod1_loop :: "bigint \<Rightarrow> bigint \<Rightarrow> bigint \<Rightarrow> bigint \<Rightarrow> bigint" where
  "mulmod1_loop a b mod' res =
     (if b > 0 then
        let res' = (if b smod 2 = 1 then (res + a) smod mod' else res);
            a' = (a * 2) smod mod';
            b' = b sdiv 2
        in mulmod1_loop a' b' mod' res'
      else res)"
  by pat_completeness auto
termination
  by (relation "measure (\<lambda>(a, b, m, r). nat b)") (auto simp: signed_divide_int_def sgn_if)

declare mulmod1_loop.simps [simp del]

definition mulmod1 :: "bigint \<Rightarrow> bigint \<Rightarrow> bigint \<Rightarrow> bigint" where
  "mulmod1 a b mod' = mulmod1_loop (a smod mod') b mod' 0 smod mod'"

text \<open>
  \<open>modpow\<close>: \<open>for (; n > 0; n /= 2) { if (n % 2) result = mulmod1(result, a, p) % p;
  a = mulmod1(a, a, p) % p; }\<close>
\<close>

function modpow_loop :: "bigint \<Rightarrow> bigint \<Rightarrow> bigint \<Rightarrow> bigint \<Rightarrow> bigint" where
  "modpow_loop a n p result =
     (if n > 0 then
        let result' = (if n smod 2 \<noteq> 0 then mulmod1 result a p smod p else result);
            a' = mulmod1 a a p smod p
        in modpow_loop a' (n sdiv 2) p result'
      else result)"
  by pat_completeness auto
termination
  by (relation "measure (\<lambda>(a, n, p, r). nat n)") (auto simp: signed_divide_int_def sgn_if)

declare modpow_loop.simps [simp del]

definition modpow :: "bigint \<Rightarrow> bigint \<Rightarrow> bigint \<Rightarrow> exception + bigint" where
  "modpow a n p =
     (if a < 0 \<or> n < 0 \<or> p < 1 then Inl (Exception ''qpp::modpow()'' OUT_OF_RANGE)
      else if a = 0 \<and> n = 0 then Inl (Exception ''qpp::modpow()'' OUT_OF_RANGE)
      else if a = 0 \<and> n > 0 then Inr 0
      else if n = 0 \<and> p = 1 then Inr 0
      else Inr (modpow_loop a n p 1))"

subsection \<open>Extended gcd and modular inverse\<close>

text \<open>
  The loop of \<open>egcd\<close>, on the state \<open>(m, n, a1, a2, b1, b2)\<close>:
  \<open>q = m / n, r = m - q * n; a = a2 - q * a1, b = b2 - q * b1; m = n, n = r;
  a2 = a1, a1 = a, b2 = b1, b1 = b;\<close>. It returns \<open>(a2, b2, m)\<close>.
\<close>

function egcd_loop ::
  "bigint \<Rightarrow> bigint \<Rightarrow> bigint \<Rightarrow> bigint \<Rightarrow> bigint \<Rightarrow> bigint \<Rightarrow> bigint \<times> bigint \<times> bigint" where
  "egcd_loop m n a1 a2 b1 b2 =
     (if n \<noteq> 0 then
        let q = m sdiv n; r = m - q * n;
            a = a2 - q * a1; b = b2 - q * b1
        in egcd_loop n r a a1 b b1
      else (a2, b2, m))"
  by pat_completeness auto
termination
proof (relation "measure (\<lambda>(m, n, a1, a2, b1, b2). nat \<bar>n\<bar>)")
  show "wf (measure (\<lambda>(m, n, a1, a2, b1, b2). nat \<bar>n\<bar>))" by simp
next
  fix m n a1 a2 b1 b2 q r a b :: int
  assume "n \<noteq> 0" and q: "q = m sdiv n" and r: "r = m - q * n"
  then have "r = m smod n"
    by (simp add: minus_sdiv_mult_eq_smod)
  with \<open>n \<noteq> 0\<close> show "((n, r, a, a1, b, b1), (m, n, a1, a2, b1, b2))
      \<in> measure (\<lambda>(m, n, a1, a2, b1, b2). nat \<bar>n\<bar>)"
    using smod_int_range [of n m] by auto
qed

declare egcd_loop.simps [simp del]

definition egcd :: "bigint \<Rightarrow> bigint \<Rightarrow> exception + bigint \<times> bigint \<times> bigint" where
  "egcd m n =
     (if m = 0 \<and> n = 0 then Inl (Exception ''qpp::egcd()'' OUT_OF_RANGE)
      else case egcd_loop m n 0 1 1 0 of
        (a, b, c) \<Rightarrow> if c < 0 then Inr (- a, - b, - c) else Inr (a, b, c))"

definition modinv :: "bigint \<Rightarrow> bigint \<Rightarrow> exception + bigint" where
  "modinv a p =
     (if a \<le> 0 \<or> p \<le> 0 then Inl (Exception ''qpp::modinv()'' OUT_OF_RANGE)
      else case egcd p a of
        Inl e \<Rightarrow> Inl e
      | Inr (x, y, gcd_ap) \<Rightarrow>
          if gcd_ap \<noteq> 1 then Inl (Exception ''qpp::modinv()'' OUT_OF_RANGE)
          else Inr (if y > 0 then y else y + p))"

subsection \<open>The random source\<close>

text \<open>
  Modelled from the spec: \<open>rand(a, b)\<close> (random.h) is not part of the source at hand. The
  spec asks of the random source a uniform integer in the inclusive range \<open>[low, high]\<close> on
  demand. The source is an oracle \<open>rnd\<close>: the call number \<open>s\<close> (counted from the start of the
  run) with the range \<open>[lo, hi]\<close> returns \<open>rnd s lo hi\<close>; every function that draws takes
  the number of calls made so far and returns it advanced.
\<close>

type_synonym rng = "nat \<Rightarrow> bigint \<Rightarrow> bigint \<Rightarrow> bigint"

definition rand_in_range :: "rng \<Rightarrow> bool" where
  "rand_in_range rnd = (\<forall>s lo hi. lo \<le> hi \<longrightarrow> lo \<le> rnd s lo hi \<and> rnd s lo hi \<le> hi)"

subsection \<open>Primality test\<close>

text \<open>
  \<open>for (bigint i = n - 1; i % 2 == 0; ++u, i /= 2);\<close> has no bound of its own (it would
  spin on \<open>i = 0\<close>): not returning is \<open>None\<close>.
\<close>

partial_function (option) u_loop :: "bigint \<Rightarrow> bigint \<Rightarrow> bigint option" where
  "u_loop i u = (if i smod 2 = 0 then u_loop (i sdiv 2) (u + 1) else Some u)"

declare u_loop.simps [code]

text \<open>
  The squaring loop \<open>for (idx j = 0; j < static_cast<idx>(u); ++j)\<close>, by the number of
  iterations left. It ends in \<open>return false\<close>, or leaves the loop with the flag \<open>jump\<close>.
\<close>

datatype square_exit = Return_false | Jump bool

fun square_loop :: "bigint \<Rightarrow> bigint \<Rightarrow> idx \<Rightarrow> square_exit" where
  "square_loop z n 0 = Jump False"
| "square_loop z n (Suc j) =
     (let z' = ((z smod n) * (z smod n)) smod n in
      if z' = 1 then Return_false
      else if z' = n - 1 then Jump True
      else square_loop z' n j)"

text \<open>
  The witness loop \<open>for (idx i = 0; i < k; ++i)\<close>, by the number of iterations left; \<open>s\<close>
  counts the draws.
\<close>

fun witness_loop ::
  "rng \<Rightarrow> nat \<Rightarrow> bigint \<Rightarrow> bigint \<Rightarrow> bigint \<Rightarrow> idx \<Rightarrow> exception + bool \<times> nat" where
  "witness_loop rnd s n r u 0 = Inr (True, s)"
| "witness_loop rnd s n r u (Suc k) =
     (let a = rnd s 2 (n - 2) in
      case modpow a r n of
        Inl e \<Rightarrow> Inl e
      | Inr z \<Rightarrow>
          if z = 1 \<or> z = n - 1 then witness_loop rnd (Suc s) n r u k
          else (case square_loop z n (nat u) of
            Return_false \<Rightarrow> Inr (False, Suc s)
          | Jump jump \<Rightarrow>
              if jump then witness_loop rnd (Suc s) n r u k else Inr (False, Suc s)))"

text \<open>
  \<open>std::llround(std::pow(2, u))\<close>, a \<open>long long\<close>. For \<open>0 \<le> u \<le> 62\<close> the power is exact as a
  \<open>double\<close> and fits \<open>long long\<close>: the result is \<open>2 ^ u\<close>. From \<open>u = 63\<close> on the rounded value
  is outside \<open>long long\<close> and the C library leaves the result of \<open>llround\<close> unspecified: the
  source determines no value, \<open>None\<close>. (\<open>u\<close> counts up from \<open>0\<close> and is never negative.)
\<close>

definition llround_pow2 :: "bigint \<Rightarrow> bigint option" where
  "llround_pow2 u = (if 0 \<le> u \<and> u < 63 then Some (2 ^ nat u) else None)"

text \<open>
  \<open>isprime(n, k)\<close>. The result is the verdict and the advanced count of draws; it is
  \<open>None\<close> where the source determines no result: the loop for \<open>u\<close> does not return, or
  the divisor \<open>std::llround(std::pow(2, u))\<close> is unspecified.
\<close>

definition isprime ::
  "rng \<Rightarrow> nat \<Rightarrow> bigint \<Rightarrow> idx \<Rightarrow> (exception + bool \<times> nat) option" where
  "isprime rnd s n k =
     (let n = (if n < 0 then - n else n) in
      if n < 2 then Some (Inl (Exception ''qpp::isprime()'' OUT_OF_RANGE))
      else if n = 2 \<or> n = 3 then Some (Inr (True, s))
      else
        let x = rnd s 2 (n - 1) in
        case modpow x (n - 1) n of
          Inl e \<Rightarrow> Some (Inl e)
        | Inr f \<Rightarrow>
            if f \<noteq> 1 then Some (Inr (False, Suc s))
            else Option.bind (u_loop (n - 1) 0) (\<lambda>u.
              Option.bind (llround_pow2 u) (\<lambda>d.
                let r = (n - 1) sdiv d in
                Some (witness_loop rnd (Suc s) n r u k))))"

subsection \<open>Random primes\<close>

text \<open>
  The attempt loop of \<open>randprime\<close> either returns a candidate or is left with the counter
  \<open>i\<close>. \<open>isprime(candidate)\<close> runs with the default \<open>k = 80\<close>; where it has no
  determined result, neither has \<open>randprime\<close>.
\<close>

datatype attempts_exit = Return_candidate bigint | Loop_done idx

function randprime_loop ::
  "rng \<Rightarrow> nat \<Rightarrow> bigint \<Rightarrow> bigint \<Rightarrow> idx \<Rightarrow> idx \<Rightarrow> (exception + attempts_exit) option" where
  "randprime_loop rnd s a b i N =
     (if i < N then
        let candidate = rnd s a b in
        if \<bar>candidate\<bar> < 2 then randprime_loop rnd (Suc s) a b (Suc i) N
        else if \<bar>candidate\<bar> = 2 then Some (Inr (Return_candidate candidate))
        else
          let x = rnd (Suc s) 2 (candidate - 1) in
          case modpow x (candidate - 1) candidate of
            Inl e \<Rightarrow> Some (Inl e)
          | Inr f \<Rightarrow>
              if f \<noteq> 1 then randprime_loop rnd (Suc (Suc s)) a b (Suc i) N
              else (case isprime rnd (Suc (Suc s)) candidate 80 of
                None \<Rightarrow> None
              | Some (Inl e) \<Rightarrow> Some (Inl e)
              | Some (Inr (verdict, s')) \<Rightarrow>
                  if verdict then Some (Inr (Return_candidate candidate))
                  else randprime_loop rnd s' a b (Suc i) N)
      else Some (Inr (Loop_done i)))"
  by pat_completeness auto
termination
  by (relation "measure (\<lambda>(rnd, s, a, b, i, N). N - i)") auto

declare randprime_loop.simps [simp del]

definition randprime :: "rng \<Rightarrow> nat \<Rightarrow> bigint \<Rightarrow> bigint \<Rightarrow> idx \<Rightarrow> (exception + bigint) option" where
  "randprime rnd s a b N =
     (if a > b then Some (Inl (Exception ''qpp::randprime()'' OUT_OF_RANGE))
      else case randprime_loop rnd s a b 0 N of
        None \<Rightarrow> None
      | Some (Inl e) \<Rightarrow> Some (Inl e)
      | Some (Inr (Return_candidate candidate)) \<Rightarrow> Some (Inr candidate)
      | Some (Inr (Loop_done i)) \<Rightarrow>
          if i = N then Some (Inl (Exception ''qpp::randprime()'' (CUSTOM_EXCEPTION ''Prime not found!'')))
          else Some (Inr 0))"

subsection \<open>The Miller--Rabin procedure of the spec\<close>




subsection \<open>Prime numbers\<close>

text \<open>What "prime" means in the statements below: an integer above one with no divisor
  strictly between one and itself.\<close>

definition is_prime :: "int \<Rightarrow> bool" where
  "is_prime p = (1 < p \<and> (\<forall>d \<in> {2..<p}. \<not> d dvd p))"

section \<open>Verification\<close>

subsection \<open>gcd\<close>

lemma gcd_smod: "gcd n (m smod n) = gcd m (n::int)"
proof -
  have "m smod n = (- (m sdiv n)) * n + m"
    using minus_sdiv_mult_eq_smod [of m n] by simp
  then have "gcd n (m smod n) = gcd n ((- (m sdiv n)) * n + m)" by simp
  also have "\<dots> = gcd n m"
    by (rule gcd_add_mult)
  finally show ?thesis by (simp add: gcd.commute)
qed

lemma smod_eq_0_dvd: "m smod n = 0 \<Longrightarrow> (n::int) dvd m"
proof -
  assume "m smod n = 0"
  then have "m = (m sdiv n) * n" using sdiv_mult_smod_eq [of m n] by simp
  then show ?thesis by (metis dvd_triv_right)
qed

lemma gcd_loop_abs: "n \<noteq> 0 \<Longrightarrow> \<bar>gcd_loop m n result\<bar> = gcd m n"
proof (induction m n result rule: gcd_loop.induct)
  case (1 m n result)
  show ?case
  proof (cases "m smod n = 0")
    case True
    then have "n dvd m" by (rule smod_eq_0_dvd)
    then have "gcd m n = \<bar>n\<bar>" by (rule gcd_proj2_if_dvd_int) 
    moreover have "gcd_loop m n result = n"
      using True 1(2) by (simp add: gcd_loop.simps [of m n] gcd_loop.simps [of n 0])
    ultimately show ?thesis by simp
  next
    case False
    with 1 have "\<bar>gcd_loop n (m smod n) n\<bar> = gcd n (m smod n)" by simp
    with 1(2) show ?thesis by (simp add: gcd_loop.simps [of m n] gcd_smod)
  qed
qed

lemma gcd_qpp_eq: "\<not> (m = 0 \<and> n = 0) \<Longrightarrow> gcd_qpp m n = Inr (gcd m n)"
  using gcd_loop_abs [of n m 1]
  by (auto simp: gcd_qpp_def Let_def)


text \<open>
  C1: for non-negative \<open>m\<close> and \<open>n\<close>, not both zero, \<open>gcd\<close> returns a non-negative common
  divisor of \<open>m\<close> and \<open>n\<close> that no common divisor exceeds; if one argument is zero it
  returns the absolute value of the other.
\<close>

theorem gcd_qpp_correct:
  assumes "0 \<le> m" "0 \<le> n" "\<not> (m = 0 \<and> n = 0)"
  shows "\<exists>g. gcd_qpp m n = Inr g \<and> 0 \<le> g \<and> g dvd m \<and> g dvd n
           \<and> (\<forall>d. d dvd m \<and> d dvd n \<longrightarrow> d \<le> g)
           \<and> (m = 0 \<longrightarrow> g = \<bar>n\<bar>) \<and> (n = 0 \<longrightarrow> g = \<bar>m\<bar>)"
proof -
  have g: "gcd_qpp m n = Inr (gcd m n)" using assms(3) by (rule gcd_qpp_eq)
  have pos: "0 < gcd m n" using assms(3) by (simp add: gcd_pos_int)
  have "d \<le> gcd m n" if "d dvd m \<and> d dvd n" for d
  proof -
    from that have "d dvd gcd m n" by simp
    with pos show ?thesis by (simp add: zdvd_imp_le)
  qed
  with g show ?thesis by auto
qed

theorem gcd_qpp_correct_witness:
  "(0::int) \<le> 48 \<and> (0::int) \<le> 18 \<and> (\<exists>g. gcd_qpp 48 18 = Inr g \<and> 0 \<le> g \<and> g dvd 48 \<and> g dvd 18
           \<and> (\<forall>d. d dvd 48 \<and> d dvd 18 \<longrightarrow> d \<le> g))"
  using gcd_qpp_correct [of 48 18] by simp

subsection \<open>Extended gcd\<close>

lemma egcd_loop_invariant:
  "a2 * m0 + b2 * n0 = m \<Longrightarrow> a1 * m0 + b1 * n0 = n \<Longrightarrow>
   egcd_loop m n a1 a2 b1 b2 = (a, b, c) \<Longrightarrow>
   a * m0 + b * n0 = c \<and> \<bar>c\<bar> = gcd m n"
proof (induction m n a1 a2 b1 b2 rule: egcd_loop.induct)
  case (1 m n a1 a2 b1 b2)
  show ?case
  proof (cases "n = 0")
    case True
    with 1(4) have "a = a2" "b = b2" "c = m"
      by (simp_all add: egcd_loop.simps [of m 0])
    with True 1(2) show ?thesis by simp
  next
    case False
    define q where "q = m sdiv n"
    define r where "r = m - q * n"
    have step: "egcd_loop n r (a2 - q * a1) a1 (b2 - q * b1) b1 = (a, b, c)"
      using 1(4) False by (simp add: egcd_loop.simps [of m n] q_def r_def Let_def)
    have inv: "(a2 - q * a1) * m0 + (b2 - q * b1) * n0 = r"
      unfolding r_def 1(2) [symmetric] 1(3) [symmetric] by (simp add: algebra_simps)
    have "a * m0 + b * n0 = c \<and> \<bar>c\<bar> = gcd n r"
      using 1(1) [OF False q_def r_def refl refl 1(3) inv step] .
    moreover have "gcd n r = gcd m n"
      unfolding r_def q_def minus_sdiv_mult_eq_smod by (rule gcd_smod)
    ultimately show ?thesis by simp
  qed
qed

lemma egcd_bezout:
  assumes "\<not> (m = 0 \<and> n = 0)"
  shows "\<exists>a b c. egcd m n = Inr (a, b, c) \<and> a * m + b * n = c \<and> gcd_qpp m n = Inr c
           \<and> 0 \<le> c \<and> c = gcd m n"
proof -
  obtain a b c where loop: "egcd_loop m n 0 1 1 0 = (a, b, c)"
    by (cases "egcd_loop m n 0 1 1 0") auto
  have inv: "a * m + b * n = c \<and> \<bar>c\<bar> = gcd m n"
    by (rule egcd_loop_invariant [OF _ _ loop]) simp_all
  have g: "gcd_qpp m n = Inr (gcd m n)" using assms by (rule gcd_qpp_eq)
  show ?thesis
  proof (cases "c < 0")
    case True
    then have "egcd m n = Inr (- a, - b, - c)" using assms loop by (simp add: egcd_def)
    moreover have "(- a) * m + (- b) * n = - c" using inv by simp
    moreover have "- c = gcd m n" using inv True by simp
    ultimately show ?thesis using g by simp
  next
    case False
    then have "egcd m n = Inr (a, b, c)" using assms loop by (simp add: egcd_def)
    moreover have "c = gcd m n" using inv False by simp
    ultimately show ?thesis using g inv by simp
  qed
qed

text \<open>
  C2: for integers \<open>m\<close> and \<open>n\<close> not both zero, \<open>egcd\<close> returns \<open>(a, b, c)\<close> with
  \<open>a * m + b * n = c\<close>, where \<open>c\<close> is non-negative and is what \<open>gcd\<close> returns on \<open>m\<close> and
  \<open>n\<close> (the greatest common divisor).
\<close>

theorem egcd_correct:
  assumes "\<not> (m = 0 \<and> n = 0)"
  shows "\<exists>a b c. egcd m n = Inr (a, b, c) \<and> a * m + b * n = c \<and> gcd_qpp m n = Inr c
           \<and> 0 \<le> c \<and> c = gcd m n"
  using assms by (rule egcd_bezout)

theorem egcd_correct_witness:
  "\<exists>a b c. egcd (-240) 46 = Inr (a, b, c) \<and> a * (-240) + b * 46 = c \<and> gcd_qpp (-240) 46 = Inr c
           \<and> 0 \<le> c \<and> c = gcd (-240) 46"
  using egcd_correct [of "-240" 46] by simp

subsection \<open>Boundary calls\<close>

text \<open>
  C9, as stated, has \<open>invperm([0,0])\<close> raise the out-of-range error. It does not: the
  exception \<open>invperm\<close> raises on a sequence that is not a bijection is of the kind
  \<open>PERM_INVALID\<close>.
\<close>

theorem invperm_not_out_of_range:
  "\<not> (\<exists>w. invperm [0, 0] = Inl (Exception w OUT_OF_RANGE))"
  by (simp add: invperm_def check_perm_def)

text \<open>
  C9, amended: \<open>gcd(0,0)\<close>, \<open>lcm(0,0)\<close> and \<open>modpow(0,0,p)\<close> for every \<open>p \<ge> 1\<close> raise the
  out-of-range error, \<open>contfrac2x\<close> on an empty vector (either overload, any \<open>n\<close>) raises the
  zero-size error, and \<open>invperm([0,0])\<close> raises the invalid-permutation error; none
  returns a value.
\<close>

theorem boundary_calls_raise:
  "gcd_qpp 0 0 = Inl (Exception ''qpp::gcd()'' OUT_OF_RANGE)
   \<and> lcm_qpp 0 0 = Inl (Exception ''qpp::lcm()'' OUT_OF_RANGE)
   \<and> (\<forall>p. 1 \<le> p \<longrightarrow> modpow 0 0 p = Inl (Exception ''qpp::modpow()'' OUT_OF_RANGE))
   \<and> contfrac2x [] = Inl (Exception ''qpp::contfrac2x()'' ZERO_SIZE)
   \<and> (\<forall>n. contfrac2x_n [] n = Inl (Exception ''qpp::contfrac2x()'' ZERO_SIZE))
   \<and> invperm [0, 0] = Inl (Exception ''qpp::invperm()'' PERM_INVALID)"
  by (simp add: gcd_qpp_def lcm_qpp_def modpow_def contfrac2x_def contfrac2x_n_def
      invperm_def check_perm_def)

theorem boundary_calls_raise_witness:
  "(1::int) \<le> 5 \<and> modpow 0 0 5 = Inl (Exception ''qpp::modpow()'' OUT_OF_RANGE)
   \<and> gcd_qpp 0 0 = Inl (Exception ''qpp::gcd()'' OUT_OF_RANGE)
   \<and> invperm [0, 0] = Inl (Exception ''qpp::invperm()'' PERM_INVALID)"
  using boundary_calls_raise by simp

subsection \<open>Modular multiplication\<close>

lemma sdiv_nonneg: "0 \<le> a \<Longrightarrow> 0 \<le> b \<Longrightarrow> a sdiv b = a div (b::int)"
  by (auto simp: signed_divide_int_def sgn_if)

lemma smod_nonneg: "0 \<le> a \<Longrightarrow> 0 \<le> b \<Longrightarrow> a smod b = a mod (b::int)"
  by (rule smod_mod_positive)

lemma add_mod_by_subtraction:
  "0 \<le> r \<Longrightarrow> r < m \<Longrightarrow> 0 \<le> a \<Longrightarrow> a < m \<Longrightarrow>
   (if m - r > a then r + a else r + a - m) = (r + a) mod (m::int)"
proof (cases "m - r > a")
  case True
  assume "0 \<le> r" "0 \<le> a"
  with True show ?thesis by simp
next
  case False
  assume a: "0 \<le> r" "r < m" "0 \<le> a" "a < m"
  with False have "0 \<le> r + a - m" "r + a - m < m" by simp_all
  then have "(r + a - m) mod m = r + a - m" by (rule mod_pos_pos_trivial)
  moreover have "(r + a - m) mod m = (r + a) mod m" by simp
  ultimately show ?thesis using False by simp
qed

lemma halves: "a * (b mod 2) + a * (2 * (b div 2)) = a * (b::int)"
  by (simp flip: distrib_left)

lemma mulmod_loop_eq:
  "0 \<le> a \<Longrightarrow> a < m \<Longrightarrow> 0 \<le> r \<Longrightarrow> r < m \<Longrightarrow> 0 \<le> b \<Longrightarrow>
   mulmod_loop a b m r = (r + a * b) mod m"
proof (induction a b m r rule: mulmod_loop.induct)
  case (1 a b m r)
  show ?case
  proof (cases "b > 0")
    case False
    with 1(6) have "b = 0" by simp
    with 1(4,5) show ?thesis by (simp add: mulmod_loop.simps [of a 0])
  next
    case True
    define r' where "r' = (if b AND 1 \<noteq> 0 then (if m - r > a then r + a else r + a - m) else r)"
    define b' where "b' = drop_bit 1 b"
    define a' where "a' = (if b' \<noteq> 0 then (if m - a > a then a + a else a + a - m) else a)"
    have b': "b' = b div 2" by (simp add: b'_def drop_bit_eq_div)
    have r': "r' = (r + a * (b mod 2)) mod m"
    proof (cases "b AND 1 \<noteq> 0")
      case True
      then have "b mod 2 = 1" by (simp add: and_one_eq)
      with True show ?thesis
        using add_mod_by_subtraction [OF 1(4,5,2,3)] by (simp add: r'_def)
    next
      case False
      then have "b mod 2 = 0" by (simp add: and_one_eq)
      with False 1(4,5) show ?thesis by (simp add: r'_def)
    qed
    have a': "a' = (if b' \<noteq> 0 then (a + a) mod m else a)"
      using add_mod_by_subtraction [OF 1(2,3,2,3)] by (simp add: a'_def)
    have a'_range: "0 \<le> a'" "a' < m"
      using 1(2,3) by (auto simp: a')
    have r'_range: "0 \<le> r'" "r' < m"
      using 1(3) 1(2) by (auto simp: r')
    have b'_nonneg: "0 \<le> b'" using 1(6) by (simp add: b')
    have step: "mulmod_loop a b m r = mulmod_loop a' b' m r'"
      using True by (simp add: mulmod_loop.simps [of a b] Let_def r'_def b'_def a'_def)
    have "mulmod_loop a' b' m r' = (r' + a' * b') mod m"
      using 1(1) [OF True r'_def b'_def a'_def a'_range r'_range b'_nonneg] .
    also have "\<dots> = (r' mod m + (a' * b') mod m) mod m" by (simp add: mod_add_eq)
    also have "(a' * b') mod m = ((a + a) * b') mod m"
      by (cases "b' = 0") (simp_all add: a' mod_mult_left_eq)
    also have "r' mod m = (r + a * (b mod 2)) mod m" by (simp add: r')
    also have "((r + a * (b mod 2)) mod m + ((a + a) * b') mod m) mod m
        = ((r + a * (b mod 2)) + ((a + a) * b')) mod m"
      by (simp add: mod_add_eq)
    also have "(r + a * (b mod 2)) + ((a + a) * b') = r + a * b"
      by (simp add: b' algebra_simps halves)
    finally show ?thesis using step by simp
  qed
qed

lemma mulmod_eq: "0 \<le> a \<Longrightarrow> 0 \<le> b \<Longrightarrow> 0 < m \<Longrightarrow> mulmod a b m = (a * b) mod m"
proof -
  assume a: "0 \<le> a" and b: "0 \<le> b" and m: "0 < m"
  have "mulmod a b m = mulmod_loop (a mod m) (b mod m) m 0"
    using a b m by (simp add: mulmod_def smod_nonneg)
  also have "\<dots> = (0 + (a mod m) * (b mod m)) mod m"
    using m by (intro mulmod_loop_eq) simp_all
  also have "\<dots> = (a * b) mod m" by (simp add: mod_mult_eq)
  finally show ?thesis .
qed

lemma mulmod1_loop_eq:
  "0 \<le> a \<Longrightarrow> 0 \<le> res \<Longrightarrow> 0 \<le> b \<Longrightarrow> 0 < m \<Longrightarrow>
   0 \<le> mulmod1_loop a b m res \<and> mulmod1_loop a b m res mod m = (res + a * b) mod m"
proof (induction a b m res rule: mulmod1_loop.induct)
  case (1 a b m res)
  show ?case
  proof (cases "b > 0")
    case False
    with 1(4) have "b = 0" by simp
    with 1(3) show ?thesis by (simp add: mulmod1_loop.simps [of a 0])
  next
    case True
    define res' where "res' = (if b smod 2 = 1 then (res + a) smod m else res)"
    define a' where "a' = (a * 2) smod m"
    define b' where "b' = b sdiv 2"
    have b': "b' = b div 2" using 1(4) by (simp add: b'_def sdiv_nonneg)
    have a': "a' = (a * 2) mod m" using 1(2,5) by (simp add: a'_def smod_nonneg)
    have res': "res' = (if b mod 2 = 1 then (res + a) mod m else res)"
      using 1(2,3,4,5) by (simp add: res'_def smod_nonneg)
    have ranges: "0 \<le> a'" "0 \<le> res'" "0 \<le> b'"
      using 1(2,3,4,5) by (auto simp: a' res' b')
    have step: "mulmod1_loop a b m res = mulmod1_loop a' b' m res'"
      using True by (simp add: mulmod1_loop.simps [of a b] Let_def res'_def b'_def a'_def)
    have IH: "0 \<le> mulmod1_loop a' b' m res'
        \<and> mulmod1_loop a' b' m res' mod m = (res' + a' * b') mod m"
      using 1(1) [OF True res'_def a'_def b'_def ranges 1(5)] .
    have "(res' + a' * b') mod m = (res' mod m + (a' * b') mod m) mod m"
      by (simp add: mod_add_eq)
    also have "(a' * b') mod m = ((a * 2) * b') mod m"
      by (simp add: a' mod_mult_left_eq)
    also have "res' mod m = (res + a * (b mod 2)) mod m"
    proof (cases "b mod 2 = 1")
      case True
      then show ?thesis by (simp add: res')
    next
      case False
      then have "b mod 2 = 0" by presburger
      with False show ?thesis by (simp add: res')
    qed
    also have "((res + a * (b mod 2)) mod m + ((a * 2) * b') mod m) mod m
        = ((res + a * (b mod 2)) + ((a * 2) * b')) mod m"
      by (simp add: mod_add_eq)
    also have "(res + a * (b mod 2)) + ((a * 2) * b') = res + a * b"
      by (simp add: b' algebra_simps halves)
    finally show ?thesis using step IH by simp
  qed
qed

lemma mulmod1_eq: "0 \<le> a \<Longrightarrow> 0 \<le> b \<Longrightarrow> 0 < m \<Longrightarrow> mulmod1 a b m = (a * b) mod m"
proof -
  assume a: "0 \<le> a" and b: "0 \<le> b" and m: "0 < m"
  have am: "0 \<le> a mod m" using m by simp
  have loop: "0 \<le> mulmod1_loop (a mod m) b m 0
      \<and> mulmod1_loop (a mod m) b m 0 mod m = (0 + (a mod m) * b) mod m"
    using am _ b m by (rule mulmod1_loop_eq) simp
  have "mulmod1 a b m = mulmod1_loop (a mod m) b m 0 mod m"
    using a m loop by (simp add: mulmod1_def smod_nonneg)
  also have "\<dots> = (a * b) mod m" using loop by (simp add: mod_mult_left_eq)
  finally show ?thesis .
qed

text \<open>
  C4: for \<open>a \<ge> 0\<close>, \<open>b \<ge> 0\<close> and \<open>m > 0\<close>, \<open>internal::mulmod\<close> and \<open>internal::mulmod1\<close>
  return the same value; it is congruent to \<open>a * b\<close> modulo \<open>m\<close> and lies in \<open>[0, m)\<close>.
\<close>

theorem mulmod_mulmod1_agree:
  assumes "0 \<le> a" "0 \<le> b" "0 < m"
  shows "mulmod a b m = mulmod1 a b m
    \<and> mulmod a b m mod m = (a * b) mod m
    \<and> 0 \<le> mulmod a b m \<and> mulmod a b m < m"
  using assms by (simp add: mulmod_eq mulmod1_eq)

theorem mulmod_mulmod1_agree_witness:
  "(0::int) \<le> 7 \<and> (0::int) \<le> 9 \<and> (0::int) < 5 \<and> mulmod 7 9 5 = mulmod1 7 9 5
    \<and> mulmod 7 9 5 mod 5 = (7 * 9) mod 5 \<and> 0 \<le> mulmod 7 9 5 \<and> mulmod 7 9 5 < 5"
proof -
  have h: "(0::int) \<le> 7" "(0::int) \<le> 9" "(0::int) < 5" by simp_all
  from h mulmod_mulmod1_agree [OF h] show ?thesis by blast
qed

subsection \<open>Modular inverse\<close>

lemma egcd_loop_coefficient_bound:
  "0 < m \<Longrightarrow> 0 < n \<Longrightarrow> \<not> (m = 1 \<and> n = 1) \<Longrightarrow> gcd m n = 1 \<Longrightarrow>
   (0 \<le> b1 \<and> b2 \<le> 0) \<or> (b1 \<le> 0 \<and> 0 \<le> b2) \<Longrightarrow> \<not> (b1 = 0 \<and> b2 = 0) \<Longrightarrow>
   m * \<bar>b1\<bar> + n * \<bar>b2\<bar> = M \<Longrightarrow>
   egcd_loop m n a1 a2 b1 b2 = (a, b, c) \<Longrightarrow> \<bar>b\<bar> < M"
proof (induction m n a1 a2 b1 b2 rule: egcd_loop.induct)
  case (1 m n a1 a2 b1 b2)
  define q where "q = m sdiv n"
  define r where "r = m - q * n"
  have q: "q = m div n" using 1(2,3) by (simp add: q_def sdiv_nonneg)
  have r: "r = m mod n" by (simp add: r_def q minus_div_mult_eq_mod)
  have q_nonneg: "0 \<le> q" using 1(2,3) by (simp add: q pos_imp_zdiv_nonneg_iff)
  have n0: "n \<noteq> 0" using 1(3) by simp
  have step: "egcd_loop n r (a2 - q * a1) a1 (b2 - q * b1) b1 = (a, b, c)"
    using 1(9) n0 by (simp add: egcd_loop.simps [of m n] q_def r_def Let_def)
  have qb1: "0 \<le> b1 \<Longrightarrow> 0 \<le> q * b1" "b1 \<le> 0 \<Longrightarrow> q * b1 \<le> 0"
    using q_nonneg by (simp_all add: mult_nonneg_nonpos)
  have abs_new: "\<bar>b2 - q * b1\<bar> = \<bar>b2\<bar> + q * \<bar>b1\<bar>"
    using 1(6) qb1 by (auto simp: abs_if)
  show ?case
  proof (cases "r = 0")
    case True
    then have "n dvd m" by (simp add: r dvd_eq_mod_eq_0)
    then have "gcd m n = n" using 1(3) by (simp add: gcd_proj2_if_dvd_int)
    with 1(5) have n1: "n = 1" by simp
    with 1(2,4) have m2: "2 \<le> m" by simp
    from step True have "b = b1" by (simp add: egcd_loop.simps [of n 0])
    moreover have "\<bar>b1\<bar> < M"
    proof (cases "b1 = 0")
      case True
      with 1(7,8) n1 show ?thesis by auto
    next
      case False
      then have "0 < \<bar>b1\<bar>" by simp
      then have "\<bar>b1\<bar> < 2 * \<bar>b1\<bar>" by simp
      also have "\<dots> \<le> m * \<bar>b1\<bar>" using m2 by (simp add: mult_right_mono)
      also have "\<dots> \<le> M" using 1(8,3) by (simp add: flip: 1(8))
      finally show ?thesis .
    qed
    ultimately show ?thesis by simp
  next
    case False
    have "0 \<le> r" "r < n" using 1(3) by (simp_all add: r)
    with False have r_range: "0 < r" "r < n" by simp_all
    have not11: "\<not> (n = 1 \<and> r = 1)" using r_range by simp
    have cop: "gcd n r = 1"
      using 1(5) by (simp add: r gcd.commute gcd_red_int [symmetric])
    have signs: "(0 \<le> b2 - q * b1 \<and> b1 \<le> 0) \<or> (b2 - q * b1 \<le> 0 \<and> 0 \<le> b1)"
      using 1(6) qb1 by auto
    have nz: "\<not> (b2 - q * b1 = 0 \<and> b1 = 0)" using 1(7) by auto
    have "n * \<bar>b2 - q * b1\<bar> + r * \<bar>b1\<bar> = n * \<bar>b2\<bar> + (n * q + r) * \<bar>b1\<bar>"
      unfolding abs_new by (simp add: algebra_simps)
    also have "n * q + r = m" by (simp add: r_def)
    finally have M: "n * \<bar>b2 - q * b1\<bar> + r * \<bar>b1\<bar> = M" using 1(8) by simp
    show ?thesis
      using 1(1) [OF n0 q_def r_def refl refl 1(3) r_range(1) not11 cop signs nz M step] .
  qed
qed


lemma egcd_coefficient_bound:
  assumes "0 < a" "1 < p" "gcd a p = 1" "egcd p a = Inr (x, y, c)"
  shows "\<bar>y\<bar> < p"
proof -
  obtain x0 y0 c0 where loop: "egcd_loop p a 0 1 1 0 = (x0, y0, c0)"
    by (cases "egcd_loop p a 0 1 1 0") auto
  have "\<bar>y0\<bar> < p"
    using assms(1,2,3) by (intro egcd_loop_coefficient_bound [OF _ _ _ _ _ _ _ loop])
      (simp_all add: gcd.commute)
  moreover have "y = y0 \<or> y = - y0"
    using assms(1,2,4) loop by (auto simp: egcd_def split: if_splits)
  ultimately show ?thesis by auto
qed

text \<open>
  C3, as stated, covers the modulus \<open>p = 1\<close>, where no value lies in \<open>(0, p)\<close> and no
  product is \<open>1\<close> modulo \<open>p\<close>: \<open>modinv(1, 1)\<close> returns \<open>1\<close>.
\<close>

theorem modinv_modulus_one:
  "gcd (1::int) 1 = 1 \<and> modinv 1 1 = Inr 1
   \<and> \<not> (\<exists>v. modinv 1 1 = Inr v \<and> 0 < v \<and> v < 1 \<and> (1 * v) mod 1 = 1)"
  by (simp add: modinv_def egcd_def egcd_loop.simps)

text \<open>
  C3, amended: for \<open>a > 0\<close> and \<open>p > 1\<close> that are coprime, \<open>modinv(a, p)\<close> returns a value
  in the open interval \<open>(0, p)\<close> whose product with \<open>a\<close> is \<open>1\<close> modulo \<open>p\<close>; for \<open>a > 0\<close>
  and \<open>p > 0\<close> that are not coprime it raises the out-of-range error.
\<close>

theorem modinv_correct:
  assumes "0 < a" "0 < p"
  shows "(gcd a p = 1 \<and> 1 < p \<longrightarrow>
            (\<exists>v. modinv a p = Inr v \<and> 0 < v \<and> v < p \<and> (a * v) smod p = 1 \<and> (a * v) mod p = 1))
       \<and> (gcd a p \<noteq> 1 \<longrightarrow> modinv a p = Inl (Exception ''qpp::modinv()'' OUT_OF_RANGE))"
proof -
  obtain x y c where e: "egcd p a = Inr (x, y, c)" and bez: "x * p + y * a = c"
    and c: "c = gcd p a"
    using egcd_bezout [of p a] assms by auto
  have fails: "modinv a p = Inl (Exception ''qpp::modinv()'' OUT_OF_RANGE)" if "gcd a p \<noteq> 1"
    using that assms e c by (simp add: modinv_def gcd.commute)
  have inv: "\<exists>v. modinv a p = Inr v \<and> 0 < v \<and> v < p \<and> (a * v) smod p = 1 \<and> (a * v) mod p = 1"
    if cop: "gcd a p = 1" and p: "1 < p"
  proof -
    define v where "v = (if y > 0 then y else y + p)"
    have c1: "c = 1" using c cop by (simp add: gcd.commute)
    have m: "modinv a p = Inr v"
      using assms e c1 by (simp add: modinv_def v_def)
    have bound: "\<bar>y\<bar> < p" using assms(1) p cop e by (rule egcd_coefficient_bound)
    have "y \<noteq> 0"
    proof
      assume "y = 0"
      with bez c1 have "x * p = 1" by simp
      then have "p dvd 1" by (metis dvd_triv_right)
      with p show False by simp
    qed
    with bound have v: "0 < v" "v < p" by (auto simp: v_def)
    have "a * v mod p = (y * a) mod p"
      by (simp add: v_def algebra_simps)
    also have "y * a = 1 + (- x) * p" using bez c1 by simp
    also have "(1 + (- x) * p) mod p = 1 mod p" by (rule mod_mult_self1)
    also have "1 mod p = 1" using p by simp
    finally have modp: "a * v mod p = 1" .
    moreover have "(a * v) smod p = (a * v) mod p"
      using v assms by (intro smod_nonneg) simp_all
    ultimately show ?thesis using m v by simp
  qed
  from fails inv show ?thesis by meson
qed

theorem modinv_correct_witness:
  "(0::int) < 3 \<and> (1::int) < 7 \<and> gcd (3::int) 7 = 1
   \<and> (\<exists>v. modinv 3 7 = Inr v \<and> 0 < v \<and> v < 7 \<and> (3 * v) smod 7 = 1 \<and> (3 * v) mod 7 = 1)
   \<and> (0::int) < 4 \<and> (0::int) < 6 \<and> gcd (4::int) 6 \<noteq> 1
   \<and> modinv 4 6 = Inl (Exception ''qpp::modinv()'' OUT_OF_RANGE)"
proof -
  have h: "(0::int) < 3" "(0::int) < 7" "gcd (3::int) 7 = 1" "(1::int) < 7" by code_simp+
  have k: "(0::int) < 4" "(0::int) < 6" "gcd (4::int) 6 \<noteq> 1" by code_simp+
  from h k modinv_correct [OF h(1,2)] modinv_correct [OF k(1,2)] show ?thesis by auto
qed

subsection \<open>Permutations\<close>

lemma invperm_loop_length: "length (invperm_loop perm xs result) = length result"
  unfolding invperm_loop_def by (induction xs arbitrary: result) simp_all

lemma invperm_loop_other:
  "j \<notin> (\<lambda>i. perm ! i) ` set xs \<Longrightarrow> invperm_loop perm xs result ! j = result ! j"
  unfolding invperm_loop_def by (induction xs arbitrary: result) auto

lemma invperm_loop_hit:
  "distinct (map (\<lambda>i. perm ! i) xs) \<Longrightarrow> i \<in> set xs \<Longrightarrow> perm ! i < length result \<Longrightarrow>
   invperm_loop perm xs result ! (perm ! i) = i"
proof (induction xs arbitrary: result)
  case Nil
  then show ?case by simp
next
  case (Cons x xs)
  have unfold: "invperm_loop perm (x # xs) result = invperm_loop perm xs (result[perm ! x := x])"
    by (simp add: invperm_loop_def)
  show ?case
  proof (cases "i = x")
    case True
    from Cons.prems(1) have "perm ! x \<notin> (\<lambda>i. perm ! i) ` set xs" by simp
    then have "invperm_loop perm xs (result[perm ! x := x]) ! (perm ! x) = result[perm ! x := x] ! (perm ! x)"
      by (rule invperm_loop_other)
    with True Cons.prems(3) show ?thesis by (simp add: unfold)
  next
    case False
    with Cons.prems have "i \<in> set xs" "distinct (map (\<lambda>i. perm ! i) xs)" by simp_all
    with Cons.IH [of "result[perm ! x := x]"] Cons.prems(3) show ?thesis
      by (simp add: unfold)
  qed
qed

lemma check_perm_set: "check_perm perm \<Longrightarrow> set perm = {..<length perm}"
proof -
  assume c: "check_perm perm"
  then have sub: "set perm \<subseteq> {..<length perm}"
    by (auto simp: check_perm_def list_all_iff)
  from c have "card (set perm) = length perm"
    by (simp add: check_perm_def distinct_card)
  then have "card (set perm) = card {..<length perm}" by simp
  with sub show ?thesis by (simp add: card_subset_eq)
qed

lemma invperm_props:
  assumes c: "check_perm perm"
  defines "iv \<equiv> invperm_loop perm [0..<length perm] (replicate (length perm) 0)"
  shows "invperm perm = Inr iv" and "length iv = length perm"
    and "\<And>i. i < length perm \<Longrightarrow> iv ! (perm ! i) = i"
    and "\<And>j. j < length perm \<Longrightarrow> perm ! (iv ! j) = j \<and> iv ! j < length perm"
    and "check_perm iv"
proof -
  show 1: "invperm perm = Inr iv" using c by (simp add: invperm_def iv_def)
  show 2: "length iv = length perm" by (simp add: iv_def invperm_loop_length)
  have range: "perm ! i < length perm" if "i < length perm" for i
    using c that by (simp add: check_perm_def list_all_length)
  have d: "distinct (map (\<lambda>i. perm ! i) [0..<length perm])"
    using c by (simp add: map_nth check_perm_def)
  show 3: "iv ! (perm ! i) = i" if "i < length perm" for i
    unfolding iv_def using d that range [OF that] by (intro invperm_loop_hit) simp_all
  show 4: "perm ! (iv ! j) = j \<and> iv ! j < length perm" if "j < length perm" for j
  proof -
    from that check_perm_set [OF c] have "j \<in> set perm" by simp
    then obtain i where "i < length perm" "perm ! i = j" by (auto simp: in_set_conv_nth)
    with 3 [of i] show ?thesis by auto
  qed
  show "check_perm iv"
    unfolding check_perm_def
  proof
    show "list_all (\<lambda>v. v < length iv) iv"
      using 4 by (simp add: list_all_length 2)
    show "distinct iv"
      unfolding distinct_conv_nth
    proof (intro allI impI)
      fix j k assume "j < length iv" "k < length iv" "j \<noteq> k"
      with 4 [of j] 4 [of k] show "iv ! j \<noteq> iv ! k" by (auto simp: 2)
    qed
  qed
qed

text \<open>
  C8: for every valid permutation \<open>p\<close> of length \<open>N\<close>, \<open>invperm(p)\<close> returns a permutation
  \<open>q\<close>, and both \<open>compperm(p, q)\<close> and \<open>compperm(q, p)\<close> return the identity
  \<open>[0, 1, ..., N-1]\<close>.
\<close>

theorem compperm_invperm_identity:
  assumes "check_perm p"
  shows "\<exists>q. invperm p = Inr q \<and> compperm p q = Inr [0..<length p]
           \<and> compperm q p = Inr [0..<length p]"
proof -
  define q where "q = invperm_loop p [0..<length p] (replicate (length p) 0)"
  note props = invperm_props [OF assms, folded q_def]
  have "map (\<lambda>i. p ! (q ! i)) [0..<length p] = [0..<length p]"
    by (rule nth_equalityI) (simp_all add: props(4))
  then have 1: "compperm p q = Inr [0..<length p]"
    using assms props(2,5) by (simp add: compperm_def)
  have "map (\<lambda>i. q ! (p ! i)) [0..<length q] = [0..<length p]"
    by (rule nth_equalityI) (simp_all add: props(2,3))
  then have 2: "compperm q p = Inr [0..<length p]"
    using assms props(2,5) by (simp add: compperm_def)
  from props(1) 1 2 show ?thesis by blast
qed

theorem compperm_invperm_identity_witness:
  "check_perm [2, 0, 1] \<and> (\<exists>q. invperm [2, 0, 1] = Inr q \<and> compperm [2, 0, 1] q = Inr [0, 1, 2]
           \<and> compperm q [2, 0, 1] = Inr [0, 1, 2])"
proof -
  have h: "check_perm [2, 0, 1]" by (simp add: check_perm_def)
  have "[0..<length [2::nat, 0, 1]] = [0, 1, 2]" by (simp add: upt_rec)
  with h compperm_invperm_identity [OF h] show ?thesis by (simp add: numeral_2_eq_2)
qed

subsection \<open>Prime factor decomposition\<close>

lemma factors_inner_returns:
  "1 \<le> n \<Longrightarrow> 2 \<le> d \<Longrightarrow>
   \<exists>n' k. factors_inner n d result = Some (n', result @ replicate k d)
      \<and> n = n' * d ^ k \<and> 1 \<le> n' \<and> \<not> d dvd n'"
proof (induction "nat n" arbitrary: n result rule: less_induct)
  case less
  show ?case
  proof (cases "n smod d = 0")
    case False
    then have "\<not> d dvd n" using less.prems by (simp add: smod_nonneg dvd_eq_mod_eq_0)
    moreover have "factors_inner n d result = Some (n, result @ replicate 0 d)"
      using False by (subst factors_inner.simps) simp
    ultimately show ?thesis using less.prems(1) by (intro exI [of _ n] exI [of _ 0]) simp
  next
    case True
    then have dvd: "d dvd n" using less.prems by (simp add: smod_nonneg dvd_eq_mod_eq_0)
    have q: "n sdiv d = n div d" using less.prems by (simp add: sdiv_nonneg)
    have "d \<le> n" using dvd less.prems by (simp add: zdvd_imp_le)
    then have q_pos: "1 \<le> n div d"
      using less.prems(2) pos_imp_zdiv_pos_iff [of d n] by simp
    have q_less: "n div d < n" using less.prems by (simp add: int_div_less_self)
    then have "nat (n div d) < nat n" using q_pos by simp
    from less.hyps [OF this q_pos less.prems(2), of "result @ [d]"]
    obtain n' k where IH: "factors_inner (n div d) d (result @ [d]) = Some (n', (result @ [d]) @ replicate k d)"
      "n div d = n' * d ^ k" "1 \<le> n'" "\<not> d dvd n'" by blast
    have "factors_inner n d result = Some (n', result @ replicate (Suc k) d)"
      using True IH(1) by (subst factors_inner.simps) (simp add: q)
    moreover have "n = n' * d ^ Suc k"
    proof -
      have "n = (n div d) * d" using dvd by simp
      also have "\<dots> = n' * d ^ Suc k" by (simp add: IH(2))
      finally show ?thesis .
    qed
    ultimately show ?thesis using IH(3,4) by blast
  qed
qed


lemma least_divisor_prime:
  assumes "2 \<le> d" "d dvd n" "\<forall>e. 2 \<le> e \<and> e < d \<longrightarrow> \<not> e dvd n"
  shows "is_prime d"
  unfolding is_prime_def
proof (intro conjI ballI notI)
  show "1 < d" using assms(1) by simp
next
  fix e assume "e \<in> {2..<d}" "e dvd d"
  then have "2 \<le> e \<and> e < d" "e dvd n" using assms(2) by (auto intro: dvd_trans)
  with assms(3) show False by blast
qed

lemma no_small_divisor_ge:
  assumes "1 < n" "\<forall>e. 2 \<le> e \<and> e < d \<longrightarrow> \<not> e dvd n"
  shows "d \<le> (n::int)"
proof (rule ccontr)
  assume "\<not> d \<le> n"
  with assms(1) have "2 \<le> n \<and> n < d" by simp
  with assms(2) have "\<not> n dvd n" by blast
  then show False by simp
qed

lemma no_small_divisor_prime:
  assumes "1 < n" "n < d * d" "0 < d" "\<forall>e. 2 \<le> e \<and> e < d \<longrightarrow> \<not> e dvd n"
  shows "is_prime n"
  unfolding is_prime_def
proof (intro conjI ballI notI)
  show "1 < n" by (rule assms(1))
next
  fix e assume e: "e \<in> {2..<n}" and "e dvd n"
  then obtain f where f: "n = e * f" by (auto simp: dvd_def)
  have "0 < e * f" "0 < e" using f e assms(1) by simp_all
  then have "0 < f" by (rule zero_less_mult_pos)
  have "f \<noteq> 1" using f e by auto
  with \<open>0 < f\<close> have "2 \<le> f" by simp
  have "f dvd n" using f by simp
  with assms(4) \<open>2 \<le> f\<close> have "d \<le> f" by (meson linorder_not_less)
  moreover from assms(4) e \<open>e dvd n\<close> have "d \<le> e" by (meson atLeastLessThan_iff linorder_not_less)
  ultimately have "d * d \<le> e * f" using assms(3) by (intro mult_mono) simp_all
  with f assms(2) show False by simp
qed

lemma factors_outer_returns:
  "2 \<le> d \<Longrightarrow> d \<le> n \<Longrightarrow> \<forall>e. 2 \<le> e \<and> e < d \<longrightarrow> \<not> e dvd n \<Longrightarrow>
   \<exists>fs. factors_outer n d result = Some (result @ fs) \<and> prod_list fs = n \<and> sorted fs
      \<and> (\<forall>q \<in> set fs. is_prime q \<and> d \<le> q)"
proof (induction "nat (n - d)" arbitrary: n d result rule: less_induct)
  case less
  have n1: "1 < n" "1 \<le> n" using less.prems(1,2) by simp_all
  obtain n' k where inner: "factors_inner n d result = Some (n', result @ replicate k d)"
    and n: "n = n' * d ^ k" and n': "1 \<le> n'" and nd: "\<not> d dvd n'"
    using factors_inner_returns [OF n1(2) less.prems(1)] by blast
  define d' where "d' = d + 1"
  have pow: "1 \<le> d ^ k" using less.prems(1) by simp
  have n'_le: "n' \<le> n"
    using n n' pow mult_left_mono [of 1 "d ^ k" n'] by simp
  have n'_dvd: "n' dvd n" using n by simp
  have small: "\<forall>e. 2 \<le> e \<and> e < d' \<longrightarrow> \<not> e dvd n'"
  proof (intro allI impI notI)
    fix e assume e: "2 \<le> e \<and> e < d'" and "e dvd n'"
    show False
    proof (cases "e = d")
      case True
      with \<open>e dvd n'\<close> nd show False by simp
    next
      case False
      with e have "2 \<le> e \<and> e < d" by (simp add: d'_def)
      moreover have "e dvd n" using \<open>e dvd n'\<close> n'_dvd by (rule dvd_trans)
      ultimately show False using less.prems(3) by blast
    qed
  qed
  have reps: "\<forall>q \<in> set (replicate k d). is_prime q \<and> d \<le> q"
  proof (cases "k = 0")
    case True
    then show ?thesis by simp
  next
    case False
    then have "d dvd n" by (simp add: n)
    with less.prems(1,3) have "is_prime d" by (intro least_divisor_prime)
    then show ?thesis by simp
  qed
  have unfold: "factors_outer n d result =
      (if d' * d' > n' then Some (if n' > 1 then (result @ replicate k d) @ [n'] else result @ replicate k d)
       else factors_outer n' d' (result @ replicate k d))"
    using n1(1) inner by (subst factors_outer.simps) (simp add: d'_def Let_def)
  show ?case
  proof (cases "d' * d' > n'")
    case True
    show ?thesis
    proof (cases "n' > 1")
      case False
      with n' have "n' = 1" by simp
      with unfold True n reps show ?thesis
        by (intro exI [of _ "replicate k d"]) (simp add: prod_list_replicate)
    next
      case n'1: True
      have "is_prime n'"
        using n'1 True _ small by (rule no_small_divisor_prime) (use less.prems(1) in \<open>simp add: d'_def\<close>)
      moreover have "d' \<le> n'" using n'1 small by (rule no_small_divisor_ge)
      ultimately have "factors_outer n d result = Some (result @ (replicate k d @ [n']))"
        "prod_list (replicate k d @ [n']) = n" "sorted (replicate k d @ [n'])"
        "\<forall>q \<in> set (replicate k d @ [n']). is_prime q \<and> d \<le> q"
        using unfold True n'1 n reps by (auto simp: prod_list_replicate sorted_append d'_def)
      then show ?thesis by blast
    qed
  next
    case False
    then have le: "d' * d' \<le> n'" by simp
    have d'2: "2 \<le> d'" using less.prems(1) by (simp add: d'_def)
    have "d' * 1 \<le> d' * d'" using d'2 by (intro mult_left_mono) simp_all
    with le have d'n': "d' \<le> n'" by simp
    have "nat (n' - d') < nat (n - d)" using n'_le d'n' by (simp add: d'_def)
    from less.hyps [OF this d'2 d'n' small, of "result @ replicate k d"]
    obtain fs where fs: "factors_outer n' d' (result @ replicate k d) = Some ((result @ replicate k d) @ fs)"
      "prod_list fs = n'" "sorted fs" "\<forall>q \<in> set fs. is_prime q \<and> d' \<le> q" by blast
    have "factors_outer n d result = Some (result @ (replicate k d @ fs))"
      "prod_list (replicate k d @ fs) = n" "sorted (replicate k d @ fs)"
      "\<forall>q \<in> set (replicate k d @ fs). is_prime q \<and> d \<le> q"
      using unfold False fs n reps by (auto simp: prod_list_replicate sorted_append d'_def)
    then show ?thesis by blast
  qed
qed

text \<open>
  C7: for every integer \<open>n\<close> with \<open>|n| \<ge> 2\<close>, \<open>factors\<close> returns, and what it returns is a
  non-decreasing sequence of prime numbers whose product is \<open>|n|\<close>.
\<close>

theorem factors_correct:
  assumes "2 \<le> \<bar>n\<bar>"
  shows "\<exists>fs. factors n = Some (Inr fs) \<and> sorted fs \<and> (\<forall>q \<in> set fs. is_prime q)
           \<and> prod_list fs = \<bar>n\<bar>"
proof -
  have "\<exists>fs. factors_outer \<bar>n\<bar> 2 [] = Some ([] @ fs) \<and> prod_list fs = \<bar>n\<bar> \<and> sorted fs
      \<and> (\<forall>q \<in> set fs. is_prime q \<and> 2 \<le> q)"
  proof (rule factors_outer_returns)
    show "\<forall>e. 2 \<le> e \<and> e < 2 \<longrightarrow> \<not> e dvd \<bar>n\<bar>" by auto
  qed (use assms in simp_all)
  then obtain fs where "factors_outer \<bar>n\<bar> 2 [] = Some fs" "prod_list fs = \<bar>n\<bar>" "sorted fs"
    "\<forall>q \<in> set fs. is_prime q" by auto
  moreover have "factors n = map_option Inr (factors_outer \<bar>n\<bar> 2 [])"
    using assms by (auto simp: factors_def Let_def abs_if)
  ultimately show ?thesis by simp
qed

theorem factors_correct_witness:
  "(2::int) \<le> \<bar>- 360\<bar> \<and> (\<exists>fs. factors (- 360) = Some (Inr fs) \<and> sorted fs \<and> list_all is_prime fs
           \<and> prod_list fs = 360)"
  using factors_correct [of "- 360"] by (simp add: list_all_iff)

subsection \<open>Modular exponentiation\<close>

lemma modpow_loop_eq:
  "0 \<le> a \<Longrightarrow> 0 \<le> n \<Longrightarrow> 0 < p \<Longrightarrow> 0 \<le> result \<Longrightarrow>
   modpow_loop a n p result = (if n > 0 then (result * a ^ nat n) mod p else result)"
proof (induction a n p result rule: modpow_loop.induct)
  case (1 a n p result)
  show ?case
  proof (cases "n > 0")
    case False
    then show ?thesis by (simp add: modpow_loop.simps [of a n])
  next
    case True
    define result' where "result' = (if n smod 2 \<noteq> 0 then mulmod1 result a p smod p else result)"
    define a' where "a' = mulmod1 a a p smod p"
    have n2: "n sdiv 2 = n div 2" "n smod 2 = n mod 2"
      using 1(3) by (simp_all add: sdiv_nonneg smod_nonneg)
    have a': "a' = (a * a) mod p"
      using 1(2,4) by (simp add: a'_def mulmod1_eq smod_nonneg)
    have result': "result' = (if n mod 2 \<noteq> 0 then (result * a) mod p else result)"
      using 1(2,4,5) by (simp add: result'_def mulmod1_eq smod_nonneg n2)
    have ranges: "0 \<le> a'" "0 \<le> n sdiv 2" "0 \<le> result'"
      using 1(3,4,5) by (auto simp: a' result' n2)
    have step: "modpow_loop a n p result = modpow_loop a' (n sdiv 2) p result'"
      using True by (simp add: modpow_loop.simps [of a n] Let_def result'_def a'_def)
    have IH: "modpow_loop a' (n sdiv 2) p result' =
        (if n sdiv 2 > 0 then (result' * a' ^ nat (n sdiv 2)) mod p else result')"
      using 1(1) [OF True result'_def a'_def ranges(1,2) 1(4) ranges(3)] .
    have step': "modpow_loop a n p result = modpow_loop a' (n div 2) p result'"
      using step by (simp only: n2)
    have IH': "modpow_loop a' (n div 2) p result' =
        (if n div 2 > 0 then (result' * a' ^ nat (n div 2)) mod p else result')"
      using IH by (simp only: n2)
    have split: "nat n = nat (n mod 2) + 2 * nat (n div 2)"
    proof -
      have "n = n mod 2 + 2 * (n div 2)" by simp
      then have "nat n = nat (n mod 2 + 2 * (n div 2))" by simp
      also have "\<dots> = nat (n mod 2) + nat (2 * (n div 2))"
        using 1(3) by (intro nat_add_distrib) simp_all
      also have "nat (2 * (n div 2)) = 2 * nat (n div 2)"
        by (simp add: nat_mult_distrib)
      finally show ?thesis .
    qed
    show ?thesis
    proof (cases "n div 2 > 0")
      case False
      with True have n1: "n = 1" by simp
      have "modpow_loop a n p result = result'" using False by (simp add: step' IH')
      also have "result' = (result * a) mod p" by (simp add: result' n1)
      finally show ?thesis by (simp add: n1)
    next
      case pos: True
      have "(result' * a' ^ nat (n div 2)) mod p
          = ((result' mod p) * ((a' ^ nat (n div 2)) mod p)) mod p"
        by (simp add: mod_mult_eq)
      also have "(a' ^ nat (n div 2)) mod p = ((a * a) ^ nat (n div 2)) mod p"
        by (simp add: a' power_mod)
      also have "result' mod p = (result * a ^ nat (n mod 2)) mod p"
      proof (cases "n mod 2 = 0")
        case True
        then show ?thesis by (simp add: result')
      next
        case False
        then have "n mod 2 = 1" by presburger
        then show ?thesis by (simp add: result')
      qed
      also have "((result * a ^ nat (n mod 2)) mod p * (((a * a) ^ nat (n div 2)) mod p)) mod p
          = ((result * a ^ nat (n mod 2)) * ((a * a) ^ nat (n div 2))) mod p"
        by (simp add: mod_mult_eq)
      also have "(result * a ^ nat (n mod 2)) * ((a * a) ^ nat (n div 2)) = result * a ^ nat n"
        by (simp add: split power_add power_mult power2_eq_square)
      finally show ?thesis using pos True by (simp add: step' IH')
    qed
  qed
qed

lemma modpow_eq:
  assumes "0 \<le> a" "0 \<le> n" "1 \<le> p" "\<not> (a = 0 \<and> n = 0)"
  shows "modpow a n p = Inr (a ^ nat n mod p)"
proof (cases "n = 0")
  case True
  with assms show ?thesis
    by (auto simp: modpow_def modpow_loop.simps [of a 0])
next
  case False
  with assms(2) have n: "0 < n" by simp
  show ?thesis
  proof (cases "a = 0")
    case True
    with n assms(3) show ?thesis by (simp add: modpow_def zero_power)
  next
    case False
    with assms n show ?thesis by (simp add: modpow_def modpow_loop_eq)
  qed
qed

subsection \<open>The decomposition \<open>n - 1 = 2 ^ u * r\<close>\<close>

lemma u_loop_returns:
  "0 < i \<Longrightarrow> \<exists>k. u_loop i u = Some (u + int k) \<and> 2 ^ k dvd i \<and> odd (i div 2 ^ k)"
proof (induction "nat i" arbitrary: i u rule: less_induct)
  case less
  have sm: "i smod 2 = i mod 2" "i sdiv 2 = i div 2"
    using less.prems by (simp_all add: smod_nonneg sdiv_nonneg)
  show ?case
  proof (cases "i mod 2 = 0")
    case False
    then have "u_loop i u = Some (u + int 0)" by (subst u_loop.simps) (simp add: sm)
    moreover have "odd (i div 2 ^ 0)" using False by (simp add: odd_iff_mod_2_eq_one)
    ultimately show ?thesis by (intro exI [of _ 0]) simp
  next
    case True
    then have even: "even i" by (simp add: even_iff_mod_2_eq_zero)
    then have half: "0 < i div 2" "nat (i div 2) < nat i" using less.prems by auto
    from less.hyps [OF half(2) half(1), of "u + 1"]
    obtain k where k: "u_loop (i div 2) (u + 1) = Some (u + 1 + int k)"
      "2 ^ k dvd i div 2" "odd (i div 2 div 2 ^ k)" by blast
    have "u_loop i u = Some (u + int (Suc k))"
      using True k(1) by (subst u_loop.simps) (simp add: sm)
    moreover have "2 ^ Suc k dvd i"
    proof -
      have "2 * 2 ^ k dvd 2 * (i div 2)" using k(2) by (rule mult_dvd_mono [OF dvd_refl])
      then show ?thesis using even by simp
    qed
    moreover have "i div 2 ^ Suc k = i div 2 div 2 ^ k"
      by (simp add: zdiv_zmult2_eq)
    ultimately show ?thesis using k(3) by (intro exI [of _ "Suc k"]) simp
  qed
qed

subsection \<open>Random primes\<close>

lemma rand_in_rangeD:
  "rand_in_range rnd \<Longrightarrow> lo \<le> hi \<Longrightarrow> lo \<le> rnd s lo hi \<and> rnd s lo hi \<le> hi"
  by (simp add: rand_in_range_def)

text \<open>
  The trailing \<open>return 0\<close> of \<open>randprime\<close> is not reached: the attempt loop is left with
  \<open>i = N\<close>, and a value that \<open>randprime\<close> returns is a candidate of absolute value at least
  \<open>2\<close> that one of the \<open>return\<close> statements of the loop returned.
\<close>

lemma randprime_loop_exits:
  "i \<le> N \<Longrightarrow> randprime_loop rnd s a b i N = Some res \<Longrightarrow>
   (\<forall>j. res = Inr (Loop_done j) \<longrightarrow> j = N)
     \<and> (\<forall>c. res = Inr (Return_candidate c) \<longrightarrow> 2 \<le> \<bar>c\<bar>)"
proof (induction "N - i" arbitrary: i s rule: less_induct)
  case less
  show ?case
  proof (cases "i < N")
    case False
    with less.prems have "i = N" by simp
    with less.prems(2) show ?thesis by (auto simp: randprime_loop.simps [of rnd s a b N N])
  next
    case True
    then have "N - Suc i < N - i" "Suc i \<le> N" by simp_all
    note IH = less.hyps [OF this]
    define c where "c = rnd s a b"
    define x where "x = rnd (Suc s) 2 (c - 1)"
    note unfold = randprime_loop.simps [of rnd s a b i N, folded c_def, unfolded Let_def, folded x_def]
    consider (small) "\<bar>c\<bar> < 2" | (two) "\<bar>c\<bar> = 2"
      | (throws) e where "2 < \<bar>c\<bar>" "modpow x (c - 1) c = Inl e"
      | (fermat) f where "2 < \<bar>c\<bar>" "modpow x (c - 1) c = Inr f" "f \<noteq> 1"
      | (miller) "2 < \<bar>c\<bar>" "modpow x (c - 1) c = Inr 1"
      by (cases "modpow x (c - 1) c") force+
    then show ?thesis
    proof cases
      case small
      with True less.prems(2) have "randprime_loop rnd (Suc s) a b (Suc i) N = Some res"
        by (simp add: unfold)
      then show ?thesis by (rule IH)
    next
      case two
      with True less.prems(2) show ?thesis by (auto simp: unfold)
    next
      case throws
      with True less.prems(2) show ?thesis by (auto simp: unfold)
    next
      case fermat
      with True less.prems(2) have "randprime_loop rnd (Suc (Suc s)) a b (Suc i) N = Some res"
        by (simp add: unfold)
      then show ?thesis by (rule IH)
    next
      case miller
      show ?thesis
      proof (cases "isprime rnd (Suc (Suc s)) c 80")
        case None
        with True miller less.prems(2) show ?thesis by (simp add: unfold)
      next
        case (Some r)
        show ?thesis
        proof (cases r)
          case (Inl e)
          with True miller Some less.prems(2) show ?thesis by (auto simp: unfold)
        next
          case (Inr vs)
          obtain v s' where vs: "vs = (v, s')" by (cases vs)
          show ?thesis
          proof (cases v)
            case True
            with \<open>i < N\<close> miller Some Inr vs less.prems(2) show ?thesis by (auto simp: unfold)
          next
            case False
            with \<open>i < N\<close> miller Some Inr vs less.prems(2)
            have "randprime_loop rnd s' a b (Suc i) N = Some res" by (simp add: unfold)
            then show ?thesis by (rule IH)
          qed
        qed
      qed
    qed
  qed
qed

lemma randprime_no_fallback:
  assumes "randprime rnd s a b N = Some (Inr c)"
  shows "randprime_loop rnd s a b 0 N = Some (Inr (Return_candidate c)) \<and> 2 \<le> \<bar>c\<bar>"
proof -
  from assms have ab: "a \<le> b" by (auto simp: randprime_def split: if_splits)
  with assms obtain res where res: "randprime_loop rnd s a b 0 N = Some res"
    by (cases "randprime_loop rnd s a b 0 N") (auto simp: randprime_def)
  from randprime_loop_exits [OF _ res]
  have "(\<forall>j. res = Inr (Loop_done j) \<longrightarrow> j = N)
      \<and> (\<forall>c. res = Inr (Return_candidate c) \<longrightarrow> 2 \<le> \<bar>c\<bar>)" by simp
  with assms ab res show ?thesis
    by (auto simp: randprime_def split: sum.splits attempts_exit.splits if_splits)
qed

text \<open>
  C10: \<open>randprime\<close> should either return a candidate accepted in its attempt loop or throw
  "Prime not found!" after \<open>N\<close> failed attempts. On an interval of candidates below \<open>-2\<close> it
  does neither, whatever the random source returns within the requested ranges: the first
  candidate passes both tests on \<open>std::abs(candidate)\<close>, and the Fermat test then calls
  \<open>modpow\<close> with the raw candidate, a negative exponent \<open>candidate - 1\<close> and a negative
  modulus, whose out-of-range error leaves \<open>randprime\<close> at the first attempt.
\<close>

theorem randprime_negative_interval:
  assumes "rand_in_range rnd" "a \<le> b" "b \<le> - 3" "0 < N"
  shows "randprime rnd s a b N = Some (Inl (Exception ''qpp::modpow()'' OUT_OF_RANGE))"
proof -
  define c where "c = rnd s a b"
  have c: "c \<le> - 3" using rand_in_rangeD [OF assms(1,2), of s] assms(3) by (simp add: c_def)
  then have "modpow (rnd (Suc s) 2 (c - 1)) (c - 1) c = Inl (Exception ''qpp::modpow()'' OUT_OF_RANGE)"
    by (simp add: modpow_def)
  with c assms(4) have "randprime_loop rnd s a b 0 N
      = Some (Inl (Exception ''qpp::modpow()'' OUT_OF_RANGE))"
    by (simp add: randprime_loop.simps [of rnd s a b 0 N] Let_def flip: c_def)
  with assms(2) show ?thesis by (simp add: randprime_def)
qed

theorem randprime_negative_interval_witness:
  "rand_in_range (\<lambda>s lo hi. lo) \<and> (- 5::int) \<le> - 5 \<and> (- 5::int) \<le> - 3 \<and> (0::nat) < 1
   \<and> randprime (\<lambda>s lo hi. lo) 0 (- 5) (- 5) 1
       = Some (Inl (Exception ''qpp::modpow()'' OUT_OF_RANGE))"
proof -
  have h: "rand_in_range (\<lambda>s lo hi. lo)" "(- 5::int) \<le> - 5" "(- 5::int) \<le> - 3" "(0::nat) < 1"
    by (simp_all add: rand_in_range_def)
  from h randprime_negative_interval [OF h, of 0] show ?thesis by simp
qed

subsection \<open>Facts about primes\<close>

lemma is_prime_coprime:
  assumes "is_prime p" "\<not> p dvd a"
  shows "coprime p a"
proof -
  define g where "g = gcd p a"
  have p: "1 < p" and nodiv: "\<And>d. 2 \<le> d \<Longrightarrow> d < p \<Longrightarrow> \<not> d dvd p"
    using assms(1) by (auto simp: is_prime_def)
  have g: "g dvd p" "g dvd a" "0 \<le> g" by (simp_all add: g_def)
  have "g \<noteq> 0" using p by (auto simp: g_def)
  have "g \<le> p" using g(1) p by (simp add: zdvd_imp_le)
  have "g \<noteq> p" using g(2) assms(2) by auto
  with \<open>g \<le> p\<close> have "g < p" by simp
  with nodiv [of g] g(1) have "g < 2" by fastforce
  with \<open>g \<noteq> 0\<close> g(3) have "g = 1" by simp
  then show ?thesis by (simp add: g_def coprime_iff_gcd_eq_1)
qed

lemma is_prime_dvd_mult:
  assumes "is_prime p" "p dvd a * b"
  shows "p dvd a \<or> p dvd b"
proof (cases "p dvd a")
  case True
  then show ?thesis ..
next
  case False
  with assms(1) have "coprime p a" by (rule is_prime_coprime)
  with assms(2) have "p dvd b" by (simp add: coprime_dvd_mult_right_iff)
  then show ?thesis ..
qed


lemma is_prime_dvd_choose:
  assumes "is_prime p" "0 < k" "k < nat p"
  shows "p dvd int (nat p choose k)"
proof -
  have p: "1 < p" using assms(1) by (simp add: is_prime_def)
  have "k * (nat p choose k) = nat p * ((nat p - 1) choose (k - 1))"
    using assms(2) by (rule times_binomial_minus1_eq)
  then have "int k * int (nat p choose k) = int (nat p) * int ((nat p - 1) choose (k - 1))"
    by (metis of_nat_mult)
  then have "p dvd int k * int (nat p choose k)" using p by simp
  with assms(1) have "p dvd int k \<or> p dvd int (nat p choose k)"
    by (rule is_prime_dvd_mult)
  moreover have "\<not> p dvd int k"
  proof
    assume "p dvd int k"
    then have "p \<le> int k" using assms(2) by (intro zdvd_imp_le) simp_all
    with assms(3) show False by simp
  qed
  ultimately show ?thesis by simp
qed


lemma binomial_middle_terms:
  assumes "is_prime p"
  shows "((a + 1) ^ nat p) mod p = (a ^ nat p + 1) mod p"
proof -
  define P where "P = nat p"
  have "1 < p" using assms by (simp add: is_prime_def)
  then have P2: "2 \<le> P" by (simp add: P_def)
  define f where "f k = int (P choose k) * a ^ k" for k
  have expand: "(a + 1) ^ P = (\<Sum>k\<le>P. f k)"
    by (simp add: binomial_ring f_def)
  have set_eq: "{..P} = insert 0 (insert P {1..<P})" using P2 by auto
  have "(\<Sum>k\<le>P. f k) = f 0 + (f P + (\<Sum>k\<in>{1..<P}. f k))"
    unfolding set_eq using P2 by simp
  also have "\<dots> = (a ^ P + 1) + (\<Sum>k\<in>{1..<P}. f k)"
    by (simp add: f_def)
  finally have sum: "(a + 1) ^ P = (a ^ P + 1) + (\<Sum>k\<in>{1..<P}. f k)"
    using expand by simp
  have "p dvd (\<Sum>k\<in>{1..<P}. f k)"
  proof (rule dvd_sum)
    fix k assume "k \<in> {1..<P}"
    then have "p dvd int (nat p choose k)"
      using assms by (intro is_prime_dvd_choose) (simp_all add: P_def)
    then show "p dvd f k" by (simp add: f_def P_def)
  qed
  then have "((a ^ P + 1) + (\<Sum>k\<in>{1..<P}. f k)) mod p = (a ^ P + 1) mod p"
    by (metis mod_add_self2 dvd_eq_mod_eq_0 mod_add_right_eq add.right_neutral)
  with sum show ?thesis by (simp add: P_def)
qed

lemma fermat_power_p:
  assumes "is_prime p"
  shows "(int m ^ nat p) mod p = int m mod p"
proof (induction m)
  case 0
  have "0 < nat p" using assms by (simp add: is_prime_def)
  then show ?case by (simp add: zero_power)
next
  case (Suc m)
  have "(int (Suc m) ^ nat p) mod p = ((int m + 1) ^ nat p) mod p" by (simp add: add.commute)
  also have "\<dots> = (int m ^ nat p + 1) mod p" using assms by (rule binomial_middle_terms)
  also have "\<dots> = ((int m ^ nat p) mod p + 1) mod p" by (simp add: mod_add_left_eq)
  also have "\<dots> = (int m mod p + 1) mod p" by (simp only: Suc.IH)
  also have "\<dots> = (int m + 1) mod p" by (rule mod_add_left_eq)
  also have "\<dots> = int (Suc m) mod p" by (simp add: add.commute)
  finally show ?case .
qed

lemma fermat_little:
  assumes "is_prime p" "\<not> p dvd a"
  shows "(a ^ nat (p - 1)) mod p = 1"
proof -
  have p: "1 < p" using assms(1) by (simp add: is_prime_def)
  define m where "m = nat (a mod p)"
  have m: "int m = a mod p" using p by (simp add: m_def)
  have nd: "\<not> p dvd int m" using assms(2) by (simp add: m dvd_eq_mod_eq_0)
  have exp: "nat p = Suc (nat (p - 1))" using p by simp
  have "(int m ^ nat p) mod p = int m mod p" using assms(1) by (rule fermat_power_p)
  then have "p dvd int m ^ nat p - int m" by (simp add: mod_eq_dvd_iff)
  also have "int m ^ nat p - int m = int m * (int m ^ nat (p - 1) - 1)"
    by (simp add: exp algebra_simps)
  finally have "p dvd int m \<or> p dvd int m ^ nat (p - 1) - 1"
    using assms(1) by (intro is_prime_dvd_mult)
  with nd have "p dvd int m ^ nat (p - 1) - 1" by simp
  then have "(int m ^ nat (p - 1)) mod p = 1 mod p" by (simp add: mod_eq_dvd_iff)
  also have "1 mod p = 1" using p by simp
  also have "(int m ^ nat (p - 1)) mod p = (a ^ nat (p - 1)) mod p"
    by (simp add: m power_mod)
  finally show ?thesis .
qed

lemma is_prime_sqrt_unity:
  assumes "is_prime p" "(z * z) mod p = 1"
  shows "z mod p = 1 \<or> z mod p = p - 1"
proof -
  have p: "1 < p" using assms(1) by (simp add: is_prime_def)
  have "(z * z) mod p = 1 mod p" using assms(2) p by simp
  then have "p dvd z * z - 1" by (simp add: mod_eq_dvd_iff)
  also have "z * z - 1 = (z - 1) * (z + 1)" by (simp add: algebra_simps)
  finally have "p dvd z - 1 \<or> p dvd z + 1" using assms(1) by (intro is_prime_dvd_mult)
  then show ?thesis
  proof
    assume "p dvd z - 1"
    then have "z mod p = 1 mod p" by (simp add: mod_eq_dvd_iff)
    then show ?thesis using p by simp
  next
    assume "p dvd z + 1"
    then have "z mod p = (p - 1) mod p" by (simp add: mod_eq_dvd_iff)
    also have "(p - 1) mod p = p - 1" using p by (intro mod_pos_pos_trivial) simp_all
    finally show ?thesis ..
  qed
qed





lemma two_power_decomposition:
  fixes m :: int
  assumes "0 < m"
  obtains k r where "m = 2 ^ k * r" "odd r" "0 < r"
proof -
  from u_loop_returns [OF assms, of 0]
  obtain k where k: "2 ^ k dvd m" "odd (m div 2 ^ k)" by blast
  have "m = 2 ^ k * (m div 2 ^ k)" using k(1) by simp
  moreover have "0 < m div 2 ^ k"
    using k(1) assms by (simp add: pos_imp_zdiv_pos_iff zdvd_imp_le)
  ultimately show ?thesis using k(2) that by blast
qed



subsection \<open>The primality test against the procedure of the spec\<close>

lemma two_power_unique_aux:
  fixes r1 r2 :: int
  assumes "2 ^ k * r1 = 2 ^ u * r2" "odd r1" "k < u"
  shows False
proof -
  have "(2::int) ^ u = 2 ^ k * 2 ^ (u - k)" using assms(3) by (simp flip: power_add)
  with assms(1) have "2 ^ k * r1 = 2 ^ k * (2 ^ (u - k) * r2)" by (simp add: mult.assoc)
  then have "r1 = 2 ^ (u - k) * r2" by simp
  moreover have "even ((2::int) ^ (u - k))" using assms(3) by simp
  ultimately show False using assms(2) by simp
qed

lemma two_power_unique:
  fixes r1 r2 :: int
  assumes "2 ^ k * r1 = 2 ^ u * r2" "odd r1" "odd r2"
  shows "k = u \<and> r1 = r2"
proof -
  have "\<not> k < u" using two_power_unique_aux [OF assms(1,2)] by blast
  moreover have "\<not> u < k" using two_power_unique_aux [OF assms(1) [symmetric] assms(3)] by blast
  ultimately have "k = u" by simp
  with assms(1) show ?thesis by simp
qed

lemma llround_pow2_small: "u < 63 \<Longrightarrow> llround_pow2 (int u) = Some (2 ^ u)"
  by (simp add: llround_pow2_def)

lemma u_loop_decomposition:
  assumes "0 < m" "m = 2 ^ u * r" "odd r"
  shows "u_loop m 0 = Some (int u)" and "m sdiv 2 ^ u = r"
proof -
  from u_loop_returns [OF assms(1), of 0]
  obtain k where k: "u_loop m 0 = Some (int k)" "2 ^ k dvd m" "odd (m div 2 ^ k)" by auto
  have "2 ^ k * (m div 2 ^ k) = 2 ^ u * r" using k(2) assms(2) by simp
  then have "k = u \<and> m div 2 ^ k = r" using k(3) assms(3) by (rule two_power_unique)
  with k(1) show "u_loop m 0 = Some (int u)" by simp
  show "m sdiv 2 ^ u = r" using assms(1) by (simp add: sdiv_nonneg assms(2))
qed

lemma square_power: "(z * z) ^ (2 ^ j) = (z::int) ^ (2 ^ Suc j)"
proof -
  have "(z * z) ^ (2 ^ j) = (z ^ 2) ^ (2 ^ j)" by (simp only: power2_eq_square)
  also have "\<dots> = z ^ (2 * 2 ^ j)" by (rule power_mult [symmetric])
  finally show ?thesis by simp
qed















subsection \<open>The primality test on small numbers\<close>

lemma prime_by_trial:
  assumes "1 < n" "n < d * d" "0 < d" "\<forall>e \<in> set [2..d - 1]. \<not> e dvd n"
  shows "is_prime n"
proof -
  have "\<forall>e. 2 \<le> e \<and> e < d \<longrightarrow> \<not> e dvd n" using assms(4) by simp
  with assms(1,2,3) show ?thesis by (rule no_small_divisor_prime)
qed

lemma is_prime_7919: "is_prime 7919"
  by (rule prime_by_trial [of _ 89]) simp_all

lemma is_prime_97: "is_prime 97"
  by (rule prime_by_trial [of _ 10]) simp_all

lemma is_prime_5: "is_prime 5"
  by (rule prime_by_trial [of _ 3]) simp_all

lemma is_prime_7: "is_prime 7"
  by (rule prime_by_trial [of _ 3]) simp_all


lemma square_loop_prime:
  "is_prime n \<Longrightarrow> 0 \<le> z \<Longrightarrow> z < n \<Longrightarrow> z \<noteq> 1 \<Longrightarrow> z \<noteq> n - 1 \<Longrightarrow>
   (z ^ (2 ^ j)) mod n = 1 \<Longrightarrow> square_loop z n j = Jump True"
proof (induction j arbitrary: z)
  case 0
  then show ?case by simp
next
  case (Suc j)
  have n: "1 < n" using Suc.prems(1) by (simp add: is_prime_def)
  define z' where "z' = (z * z) mod n"
  have code: "((z smod n) * (z smod n)) smod n = z'"
    using Suc.prems(2) n by (simp add: smod_nonneg mod_mult_eq z'_def)
  have unfold: "square_loop z n (Suc j) =
      (if z' = 1 then Return_false else if z' = n - 1 then Jump True else square_loop z' n j)"
    by (subst square_loop.simps) (simp only: code Let_def)
  have "z' \<noteq> 1"
  proof
    assume "z' = 1"
    with Suc.prems(1) have "z mod n = 1 \<or> z mod n = n - 1"
      unfolding z'_def by (rule is_prime_sqrt_unity)
    with Suc.prems(2,3,4,5) show False by simp
  qed
  show ?case
  proof (cases "z' = n - 1")
    case True
    with \<open>z' \<noteq> 1\<close> show ?thesis unfolding unfold by simp
  next
    case False
    have "z' ^ (2 ^ j) mod n = ((z * z) ^ (2 ^ j)) mod n" by (simp only: z'_def power_mod)
    also have "\<dots> = 1" using Suc.prems(6) by (simp only: square_power)
    finally have "square_loop z' n j = Jump True"
      using Suc.prems(1) n \<open>z' \<noteq> 1\<close> False by (intro Suc.IH) (simp_all add: z'_def)
    with \<open>z' \<noteq> 1\<close> False show ?thesis unfolding unfold by simp
  qed
qed

lemma witness_loop_prime:
  assumes "is_prime n" "4 \<le> n" "rand_in_range rnd" "n - 1 = 2 ^ u * r" "0 < r"
  shows "\<exists>s'. witness_loop rnd s n r (int u) k = Inr (True, s')"
proof (induction k arbitrary: s)
  case 0
  show ?case by simp
next
  case (Suc k)
  define a where "a = rnd s 2 (n - 2)"
  define z where "z = a ^ nat r mod n"
  have a: "2 \<le> a" "a \<le> n - 2"
    using rand_in_rangeD [OF assms(3), of 2 "n - 2" s] assms(2) by (simp_all add: a_def)
  then have m: "modpow a r n = Inr z"
    unfolding z_def using assms(2,5) by (intro modpow_eq) simp_all
  have "\<not> n dvd a"
  proof
    assume "n dvd a"
    then have "n \<le> a" using a(1) by (intro zdvd_imp_le) simp_all
    with a(2) show False by simp
  qed
  with assms(1) have fermat: "a ^ nat (n - 1) mod n = 1" by (rule fermat_little)
  have exp: "nat (n - 1) = nat r * 2 ^ u"
    using assms(5) by (simp add: assms(4) nat_mult_distrib nat_power_eq mult.commute)
  have "z ^ (2 ^ u) mod n = ((a ^ nat r) ^ (2 ^ u)) mod n" by (simp only: z_def power_mod)
  also have "(a ^ nat r) ^ (2 ^ u) = a ^ nat (n - 1)" by (simp add: exp power_mult)
  finally have zu: "z ^ (2 ^ u) mod n = 1" using fermat by simp
  have z_range: "0 \<le> z" "z < n" using assms(2) by (simp_all add: z_def)
  from Suc.IH [of "Suc s"] obtain s' where
    IH: "witness_loop rnd (Suc s) n r (int u) k = Inr (True, s')" by blast
  have code: "witness_loop rnd s n r (int u) (Suc k) =
      (if z = 1 \<or> z = n - 1 then witness_loop rnd (Suc s) n r (int u) k
       else (case square_loop z n u of
          Return_false \<Rightarrow> Inr (False, Suc s)
        | Jump jump \<Rightarrow> if jump then witness_loop rnd (Suc s) n r (int u) k else Inr (False, Suc s)))"
    by (simp add: Let_def m flip: a_def)
  show ?case
  proof (cases "z = 1 \<or> z = n - 1")
    case True
    with IH show ?thesis unfolding code by simp
  next
    case False
    with assms(1) z_range zu have "square_loop z n u = Jump True"
      by (intro square_loop_prime) simp_all
    with False IH show ?thesis unfolding code by simp
  qed
qed

lemma isprime_prime:
  assumes "is_prime n" "rand_in_range rnd" "n < 2 ^ 63"
  shows "\<exists>s'. isprime rnd s n k = Some (Inr (True, s'))"
proof (cases "n = 2 \<or> n = 3")
  case True
  then show ?thesis by (auto simp: isprime_def)
next
  case False
  have "1 < n" using assms(1) by (simp add: is_prime_def)
  with False have n4: "4 \<le> n" by simp
  obtain u r where ur: "n - 1 = 2 ^ u * r" "odd r" "0 < r"
    using two_power_decomposition [of "n - 1"] n4 by auto
  define x where "x = rnd s 2 (n - 1)"
  have x: "2 \<le> x" "x \<le> n - 1"
    using rand_in_rangeD [OF assms(2), of 2 "n - 1" s] n4 by (simp_all add: x_def)
  then have m: "modpow x (n - 1) n = Inr (x ^ nat (n - 1) mod n)"
    using n4 by (intro modpow_eq) simp_all
  have "\<not> n dvd x"
  proof
    assume "n dvd x"
    then have "n \<le> x" using x(1) by (intro zdvd_imp_le) simp_all
    with x(2) show False by simp
  qed
  with assms(1) have fermat: "x ^ nat (n - 1) mod n = 1" by (rule fermat_little)
  have u: "u_loop (n - 1) 0 = Some (int u)" "(n - 1) sdiv 2 ^ u = r"
    using u_loop_decomposition [OF _ ur(1,2)] n4 by simp_all
  have "(2::int) ^ u * 1 \<le> 2 ^ u * r" using ur(3) by (intro mult_left_mono) simp_all
  then have "(2::int) ^ u \<le> n - 1" using ur(1) by simp
  also have "n - 1 < 2 ^ 63" using assms(3) by simp
  finally have small: "(2::int) ^ u < 2 ^ 63" .
  have "u < 63"
  proof (rule power_less_imp_less_exp)
    show "(1::int) < 2" by simp
    show "(2::int) ^ u < 2 ^ 63" by (rule small)
  qed
  then have d: "llround_pow2 (int u) = Some (2 ^ u)" by (rule llround_pow2_small)
  obtain s' where "witness_loop rnd (Suc s) n r (int u) k = Inr (True, s')"
    using witness_loop_prime [OF assms(1) n4 assms(2) ur(1,3)] by blast
  then show ?thesis
    using n4 by (simp add: isprime_def Let_def m fermat u d flip: x_def)
qed

lemma isprime_fermat_fails:
  assumes "4 \<le> n" "rand_in_range rnd"
    and "\<And>x. 2 \<le> x \<Longrightarrow> x \<le> n - 1 \<Longrightarrow> x ^ nat (n - 1) mod n \<noteq> 1"
  shows "isprime rnd s n k = Some (Inr (False, Suc s))"
proof -
  define x where "x = rnd s 2 (n - 1)"
  have x: "2 \<le> x" "x \<le> n - 1"
    using rand_in_rangeD [OF assms(2), of 2 "n - 1" s] assms(1) by (simp_all add: x_def)
  then have m: "modpow x (n - 1) n = Inr (x ^ nat (n - 1) mod n)"
    using assms(1) by (intro modpow_eq) simp_all
  have "x ^ nat (n - 1) mod n \<noteq> 1" using x by (rule assms(3))
  then show ?thesis
    using assms(1) by (simp add: isprime_def Let_def m flip: x_def)
qed

lemma residue_one:
  assumes "1 < m" "m dvd n" "0 < e"
    and "\<forall>c \<in> set [0..m - 1]. modpow c e m = Inr 1 \<longrightarrow> c = 1"
    and "x ^ nat e mod n = 1"
  shows "m dvd x - 1"
proof -
  define c where "c = x mod m"
  have c: "0 \<le> c" "c \<le> m - 1" using assms(1) by (simp_all add: c_def)
  have "x ^ nat e mod n mod m = x ^ nat e mod m" using assms(2) by (rule mod_mod_cancel)
  then have "x ^ nat e mod m = 1" using assms(1,5) by simp
  then have "c ^ nat e mod m = 1" by (simp add: c_def power_mod)
  moreover have "modpow c e m = Inr (c ^ nat e mod m)"
    using c(1) assms(1,3) by (intro modpow_eq) simp_all
  ultimately have "modpow c e m = Inr 1" by simp
  with assms(4) c have "c = 1" by simp
  then have "x mod m = 1 mod m" using assms(1) by (simp add: c_def)
  then show ?thesis by (simp add: mod_eq_dvd_iff)
qed

lemma fermat_fails_4:
  fixes x :: int
  assumes "2 \<le> x" "x \<le> 4 - 1"
  shows "x ^ nat (4 - 1) mod 4 \<noteq> 1"
proof -
  from assms have "x = 2 \<or> x = 3" by auto
  then show ?thesis by auto
qed

lemma fermat_fails_100:
  fixes x :: int
  assumes "2 \<le> x" "x \<le> 100 - 1"
  shows "x ^ nat (100 - 1) mod 100 \<noteq> 1"
proof
  assume one: "x ^ nat (100 - 1) mod 100 = 1"
  have r4: "\<forall>c \<in> set [0..4 - 1]. modpow c (100 - 1) 4 = Inr 1 \<longrightarrow> c = 1" by code_simp
  have r25: "\<forall>c \<in> set [0..25 - 1]. modpow c (100 - 1) 25 = Inr 1 \<longrightarrow> c = 1" by code_simp
  have "4 dvd x - 1" using _ _ _ r4 one by (rule residue_one) simp_all
  moreover have "25 dvd x - 1" using _ _ _ r25 one by (rule residue_one) simp_all
  moreover have "coprime (4::int) 25" by code_simp
  ultimately have "4 * 25 dvd x - 1" by (rule divides_mult)
  then have "100 \<le> x - 1" using assms(1) by (intro zdvd_imp_le) simp_all
  with assms(2) show False by simp
qed

lemma fermat_fails_7920:
  fixes x :: int
  assumes "2 \<le> x" "x \<le> 7920 - 1"
  shows "x ^ nat (7920 - 1) mod 7920 \<noteq> 1"
proof
  assume one: "x ^ nat (7920 - 1) mod 7920 = 1"
  have r16: "\<forall>c \<in> set [0..16 - 1]. modpow c (7920 - 1) 16 = Inr 1 \<longrightarrow> c = 1" by code_simp
  have r9: "\<forall>c \<in> set [0..9 - 1]. modpow c (7920 - 1) 9 = Inr 1 \<longrightarrow> c = 1" by code_simp
  have r5: "\<forall>c \<in> set [0..5 - 1]. modpow c (7920 - 1) 5 = Inr 1 \<longrightarrow> c = 1" by code_simp
  have r11: "\<forall>c \<in> set [0..11 - 1]. modpow c (7920 - 1) 11 = Inr 1 \<longrightarrow> c = 1" by code_simp
  have "16 dvd x - 1" using _ _ _ r16 one by (rule residue_one) simp_all
  moreover have "9 dvd x - 1" using _ _ _ r9 one by (rule residue_one) simp_all
  moreover have "coprime (16::int) 9" by code_simp
  ultimately have "16 * 9 dvd x - 1" by (rule divides_mult)
  moreover have "5 dvd x - 1" using _ _ _ r5 one by (rule residue_one) simp_all
  moreover have "coprime (16 * 9 :: int) 5" by code_simp
  ultimately have "16 * 9 * 5 dvd x - 1" by (rule divides_mult)
  moreover have "11 dvd x - 1" using _ _ _ r11 one by (rule residue_one) simp_all
  moreover have "coprime (16 * 9 * 5 :: int) 11" by code_simp
  ultimately have "16 * 9 * 5 * 11 dvd x - 1" by (rule divides_mult)
  then have "7920 \<le> x - 1" using assms(1) by (intro zdvd_imp_le) simp_all
  with assms(2) show False by simp
qed


lemma isprime_9:
  assumes "rand_in_range rnd" "0 < k"
  shows "\<exists>s'. isprime rnd s 9 k = Some (Inr (False, s'))"
proof -
  obtain k' where k: "k = Suc k'" using assms(2) by (cases k) auto
  define x where "x = rnd s 2 8"
  define f where "f = x ^ 8 mod 9"
  define a where "a = rnd (Suc s) 2 7"
  have x: "2 \<le> x" using rand_in_rangeD [OF assms(1), of 2 8 s] by (simp add: x_def)
  have m: "modpow x 8 9 = Inr f"
    using modpow_eq [of x 8 9] x by (simp add: f_def)
  have "u_loop 8 0 = Some (int 3)" by (rule u_loop_decomposition(1) [of 8 3 1]) simp_all
  then have u: "u_loop 8 0 = Some 3" by simp
  have r: "8 sdiv 8 = (1::int)" by simp
  have d: "llround_pow2 3 = Some 8" by (simp add: llround_pow2_def)
  have a: "2 \<le> a" "a \<le> 7"
    using rand_in_rangeD [OF assms(1), of 2 7 "Suc s"] by (simp_all add: a_def)
  then have ma: "modpow a 1 9 = Inr a"
    using modpow_eq [of a 1 9] by simp
  have "\<forall>a \<in> set [2..7]. square_loop a 9 3 \<noteq> Jump True" by code_simp
  moreover have "a \<in> set [2..7]" using a by (simp only: set_upto atLeastAtMost_iff)
  ultimately have sq: "square_loop a 9 3 \<noteq> Jump True" by (rule bspec)
  have w: "witness_loop rnd (Suc s) 9 1 3 (Suc k') = Inr (False, Suc (Suc s))"
  proof (cases "square_loop a 9 3")
    case Return_false
    with a show ?thesis by (simp add: Let_def ma flip: a_def)
  next
    case (Jump jump)
    with sq have "\<not> jump" by auto
    with Jump a show ?thesis by (simp add: Let_def ma flip: a_def)
  qed
  have code: "isprime rnd s 9 k =
      (if f \<noteq> 1 then Some (Inr (False, Suc s))
       else Some (witness_loop rnd (Suc s) 9 1 3 (Suc k')))"
    by (simp add: isprime_def Let_def m u d r k del: witness_loop.simps flip: x_def)
  show ?thesis unfolding code w by auto
qed

text \<open>
  C5: whatever the random source returns within the requested ranges, \<open>isprime\<close> with
  \<open>k = 80\<close> returns \<open>true\<close> on 2, 3, 5, 7, 97 and 7919, and \<open>false\<close> on 4, 9, 100 and 7920.
\<close>

theorem isprime_small_numbers:
  assumes "rand_in_range rnd"
  shows "(\<forall>n \<in> {2, 3, 5, 7, 97, 7919}. \<exists>s'. isprime rnd s n 80 = Some (Inr (True, s')))
       \<and> (\<forall>n \<in> {4, 9, 100, 7920}. \<exists>s'. isprime rnd s n 80 = Some (Inr (False, s')))"
proof -
  have small: "\<exists>s'. isprime rnd s 2 80 = Some (Inr (True, s'))"
    "\<exists>s'. isprime rnd s 3 80 = Some (Inr (True, s'))"
    by (simp_all add: isprime_def)
  have primes: "\<exists>s'. isprime rnd s 5 80 = Some (Inr (True, s'))"
    "\<exists>s'. isprime rnd s 7 80 = Some (Inr (True, s'))"
    "\<exists>s'. isprime rnd s 97 80 = Some (Inr (True, s'))"
    "\<exists>s'. isprime rnd s 7919 80 = Some (Inr (True, s'))"
    using isprime_prime [OF is_prime_5 assms] isprime_prime [OF is_prime_7 assms]
      isprime_prime [OF is_prime_97 assms] isprime_prime [OF is_prime_7919 assms]
    by simp_all
  have composites: "isprime rnd s 4 80 = Some (Inr (False, Suc s))"
    "isprime rnd s 100 80 = Some (Inr (False, Suc s))"
    "isprime rnd s 7920 80 = Some (Inr (False, Suc s))"
    using assms
    by (intro isprime_fermat_fails fermat_fails_4 fermat_fails_100 fermat_fails_7920; simp)+
  have nine: "\<exists>s'. isprime rnd s 9 80 = Some (Inr (False, s'))"
    using assms by (rule isprime_9) simp
  from small primes composites nine show ?thesis by simp
qed

theorem isprime_small_numbers_witness:
  "rand_in_range (\<lambda>s lo hi. hi)
   \<and> (\<exists>s'. isprime (\<lambda>s lo hi. hi) 0 7919 80 = Some (Inr (True, s')))
   \<and> (\<exists>s'. isprime (\<lambda>s lo hi. hi) 0 9 80 = Some (Inr (False, s')))"
proof -
  have h: "rand_in_range (\<lambda>s lo hi. hi)" by (simp add: rand_in_range_def)
  from h isprime_small_numbers [OF h, of 0] show ?thesis by simp
qed

end
